theory Spec2Isabelle
  imports Main "HOL-Library.Word" "HOL-Library.Monad_Syntax"
begin

section \<open>Memory model\<close>

text \<open>
  The list of \<^verbatim>\<open>llist.c\<close> lives in the C heap: nodes point at each other and at their
  payload buffers, and the list header points at the first and the last node. The
  embedding keeps that shape. A pointer is a 64-bit word and \<open>NULL\<close> is the word 0;
  \<^verbatim>\<open>size_t\<close> is a 64-bit word as well, so \<^verbatim>\<open>l->len++\<close>, \<^verbatim>\<open>l->len - 1\<close> and
  \<^verbatim>\<open>l->len / 2\<close> are word operations that wrap around.

  The memory is split by the type of the object stored: the headers (\<^verbatim>\<open>llist_t\<close>), the
  nodes (\<^verbatim>\<open>lnode_t\<close>) and the payload buffers, each a partial map from addresses to
  contents whose domain is the set of live objects of that type.

  Every function returns an option: \<open>None\<close> stands for undefined behaviour of the C
  program (a dereference of \<open>NULL\<close> or of a pointer to no live object, \<^verbatim>\<open>memcpy\<close> reading
  past its source, \<^verbatim>\<open>free\<close> of a pointer that is not live).
\<close>

type_synonym ptr = "64 word"
type_synonym size_t = "64 word"
type_synonym byte = "8 word"

abbreviation NULL :: ptr where
  "NULL \<equiv> 0"

definition LLIST_OK :: int where
  "LLIST_OK = 0"

definition LLIST_NULL_ERR :: int where
  "LLIST_NULL_ERR = 1"

definition LLIST_ALLOC_ERR :: int where
  "LLIST_ALLOC_ERR = 2"

record lnode_t =
  data :: ptr
  prev :: ptr
  nxt :: ptr

record llist_t =
  head :: ptr
  tail :: ptr
  len :: size_t

record mem =
  lists :: "ptr \<rightharpoonup> llist_t"
  nodes :: "ptr \<rightharpoonup> lnode_t"
  bufs :: "ptr \<rightharpoonup> byte list"

subsection \<open>Field reads and writes\<close>

text \<open>
  \<open>node_at m p\<close> and \<open>list_at m l\<close> are the dereferences \<^verbatim>\<open>*p\<close> and \<^verbatim>\<open>*l\<close>. The
  field \<^verbatim>\<open>next\<close> of the source is called \<open>nxt\<close> here.
\<close>

definition node_at :: "mem \<Rightarrow> ptr \<Rightarrow> lnode_t option" where
  "node_at m p = (if p = NULL then None else nodes m p)"

definition list_at :: "mem \<Rightarrow> ptr \<Rightarrow> llist_t option" where
  "list_at m l = (if l = NULL then None else lists m l)"

definition get_data :: "ptr \<Rightarrow> mem \<Rightarrow> ptr option" where
  "get_data p m = map_option data (node_at m p)"

definition get_prev :: "ptr \<Rightarrow> mem \<Rightarrow> ptr option" where
  "get_prev p m = map_option prev (node_at m p)"

definition get_next :: "ptr \<Rightarrow> mem \<Rightarrow> ptr option" where
  "get_next p m = map_option nxt (node_at m p)"

definition set_data :: "ptr \<Rightarrow> ptr \<Rightarrow> mem \<Rightarrow> mem option" where
  "set_data p v m = do { nd \<leftarrow> node_at m p; Some (m\<lparr>nodes := (nodes m)(p \<mapsto> nd\<lparr>data := v\<rparr>)\<rparr>) }"

definition set_prev :: "ptr \<Rightarrow> ptr \<Rightarrow> mem \<Rightarrow> mem option" where
  "set_prev p v m = do { nd \<leftarrow> node_at m p; Some (m\<lparr>nodes := (nodes m)(p \<mapsto> nd\<lparr>prev := v\<rparr>)\<rparr>) }"

definition set_next :: "ptr \<Rightarrow> ptr \<Rightarrow> mem \<Rightarrow> mem option" where
  "set_next p v m = do { nd \<leftarrow> node_at m p; Some (m\<lparr>nodes := (nodes m)(p \<mapsto> nd\<lparr>nxt := v\<rparr>)\<rparr>) }"

definition get_head :: "ptr \<Rightarrow> mem \<Rightarrow> ptr option" where
  "get_head l m = map_option head (list_at m l)"

definition get_tail :: "ptr \<Rightarrow> mem \<Rightarrow> ptr option" where
  "get_tail l m = map_option tail (list_at m l)"

definition get_len :: "ptr \<Rightarrow> mem \<Rightarrow> size_t option" where
  "get_len l m = map_option len (list_at m l)"

definition set_head :: "ptr \<Rightarrow> ptr \<Rightarrow> mem \<Rightarrow> mem option" where
  "set_head l v m = do { L \<leftarrow> list_at m l; Some (m\<lparr>lists := (lists m)(l \<mapsto> L\<lparr>head := v\<rparr>)\<rparr>) }"

definition set_tail :: "ptr \<Rightarrow> ptr \<Rightarrow> mem \<Rightarrow> mem option" where
  "set_tail l v m = do { L \<leftarrow> list_at m l; Some (m\<lparr>lists := (lists m)(l \<mapsto> L\<lparr>tail := v\<rparr>)\<rparr>) }"

definition set_len :: "ptr \<Rightarrow> size_t \<Rightarrow> mem \<Rightarrow> mem option" where
  "set_len l v m = do { L \<leftarrow> list_at m l; Some (m\<lparr>lists := (lists m)(l \<mapsto> L\<lparr>len := v\<rparr>)\<rparr>) }"

subsection \<open>The allocator\<close>

text \<open>
  \<^verbatim>\<open>malloc\<close> is the environment's: its result is a parameter of the operation that calls
  it. \<open>NULL\<close> is a failed allocation; any other address brings an object to life there.
  The standard promises a pointer to storage disjoint from every live object, which the
  theorems assume as \<open>fresh_node\<close> and \<open>fresh_buf\<close>. A node comes to life with the field
  values that \<^verbatim>\<open>lnode_new\<close> stores right after the allocation.
\<close>

definition fresh_node :: "mem \<Rightarrow> ptr \<Rightarrow> bool" where
  "fresh_node m p = (p = NULL \<or> nodes m p = None)"

definition fresh_buf :: "mem \<Rightarrow> ptr \<Rightarrow> bool" where
  "fresh_buf m p = (p = NULL \<or> bufs m p = None)"

definition free_node :: "ptr \<Rightarrow> mem \<Rightarrow> mem option" where
  "free_node p m =
     (if p = NULL then Some m
      else if nodes m p = None then None
      else Some (m\<lparr>nodes := (nodes m)(p := None)\<rparr>))"

definition free_buf :: "ptr \<Rightarrow> mem \<Rightarrow> mem option" where
  "free_buf p m =
     (if p = NULL then Some m
      else if bufs m p = None then None
      else Some (m\<lparr>bufs := (bufs m)(p := None)\<rparr>))"

section \<open>The functions of llist.c\<close>

text \<open>\<^verbatim>\<open>llist_init\<close>: overwrites the three fields of the header.\<close>

definition llist_init :: "ptr \<Rightarrow> mem \<Rightarrow> (int \<times> mem) option" where
  "llist_init l m =
     (if l = NULL then Some (LLIST_NULL_ERR, m)
      else do {
        m \<leftarrow> set_head l NULL m;
        m \<leftarrow> set_tail l NULL m;
        m \<leftarrow> set_len l 0 m;
        Some (LLIST_OK, m) })"

text \<open>\<^verbatim>\<open>llist_empty\<close>: \<^verbatim>\<open>l == NULL || l->len == 0\<close>, the right operand read only when
  the left one is false.\<close>

definition llist_empty :: "ptr \<Rightarrow> mem \<Rightarrow> bool option" where
  "llist_empty l m =
     (if l = NULL then Some True else do { n \<leftarrow> get_len l m; Some (n = 0) })"

text \<open>
  \<^verbatim>\<open>lnode_new\<close>, given the results \<open>pn\<close> and \<open>pd\<close> of its two calls of \<^verbatim>\<open>malloc\<close>
  (the second is only made when the first succeeded). The source \<open>d\<close> is the content
  of the memory that the caller's pointer refers to.
\<close>

definition lnode_new :: "byte list \<Rightarrow> size_t \<Rightarrow> ptr \<Rightarrow> ptr \<Rightarrow> mem \<Rightarrow> (ptr \<times> mem) option" where
  "lnode_new d n pn pd m =
     (if pn \<noteq> NULL then
        let m = m\<lparr>nodes := (nodes m)(pn \<mapsto> \<lparr>data = pd, prev = NULL, nxt = NULL\<rparr>)\<rparr> in
        if pd = NULL then do { m \<leftarrow> free_node pn m; Some (NULL, m) }
        else if length d < unat n then None
        else Some (pn, m\<lparr>bufs := (bufs m)(pd \<mapsto> take (unat n) d)\<rparr>)
      else Some (NULL, m))"

text \<open>The two loops of \<^verbatim>\<open>lnode_get\<close>: \<open>for (size_t j = 0; j < k; j++) ret = ret->prev\<close>
  and the same with \<^verbatim>\<open>next\<close>.\<close>

function walk_prev :: "mem \<Rightarrow> ptr \<Rightarrow> size_t \<Rightarrow> size_t \<Rightarrow> ptr option" where
  "walk_prev m ret j k =
     (if j < k then do { p \<leftarrow> get_prev ret m; walk_prev m p (j + 1) k } else Some ret)"
  by pat_completeness auto
termination
proof (relation "measure (\<lambda>(m, ret, j, k). unat k - unat j)")
  fix m :: mem and ret p :: ptr and j k :: size_t
  assume "j < k"
  then have "unat k - unat (j + 1) < unat k - unat j"
    by unat_arith
  then show "((m, p, j + 1, k), (m, ret, j, k)) \<in> measure (\<lambda>(m, ret, j, k). unat k - unat j)"
    by simp
qed simp

function walk_next :: "mem \<Rightarrow> ptr \<Rightarrow> size_t \<Rightarrow> size_t \<Rightarrow> ptr option" where
  "walk_next m ret j k =
     (if j < k then do { p \<leftarrow> get_next ret m; walk_next m p (j + 1) k } else Some ret)"
  by pat_completeness auto
termination
proof (relation "measure (\<lambda>(m, ret, j, k). unat k - unat j)")
  fix m :: mem and ret p :: ptr and j k :: size_t
  assume "j < k"
  then have "unat k - unat (j + 1) < unat k - unat j"
    by unat_arith
  then show "((m, p, j + 1, k), (m, ret, j, k)) \<in> measure (\<lambda>(m, ret, j, k). unat k - unat j)"
    by simp
qed simp

text \<open>\<^verbatim>\<open>lnode_get\<close>: the index is clamped to the last one, then the node is reached
  from the tail when the index lies in the upper half and from the head otherwise.\<close>

definition lnode_get :: "ptr \<Rightarrow> size_t \<Rightarrow> mem \<Rightarrow> ptr option" where
  "lnode_get l i m = do {
     e \<leftarrow> llist_empty l m;
     if e then Some NULL
     else do {
       n \<leftarrow> get_len l m;
       let i = (if i \<ge> n then n - 1 else i);
       if i \<ge> n div 2 then do { t \<leftarrow> get_tail l m; walk_prev m t 0 (n - i - 1) }
       else do { h \<leftarrow> get_head l m; walk_next m h 0 i } } }"

text \<open>\<^verbatim>\<open>llist_get\<close> returns the payload pointer stored in the node, or \<open>NULL\<close>.\<close>

definition llist_get :: "ptr \<Rightarrow> size_t \<Rightarrow> mem \<Rightarrow> ptr option" where
  "llist_get l i m = do {
     node \<leftarrow> lnode_get l i m;
     if node \<noteq> NULL then get_data node m else Some NULL }"

text \<open>
  \<^verbatim>\<open>llist_add\<close>. The data pointer \<open>d\<close> is \<open>None\<close> for \<open>NULL\<close> and otherwise the bytes
  readable at the pointer. Each assignment of the source is one step on the memory, in
  the source's order.
\<close>

definition llist_add ::
  "ptr \<Rightarrow> byte list option \<Rightarrow> size_t \<Rightarrow> ptr \<Rightarrow> ptr \<Rightarrow> mem \<Rightarrow> (int \<times> mem) option" where
  "llist_add l d n pn pd m =
     (if l = NULL \<or> d = None \<or> n = 0 then Some (LLIST_NULL_ERR, m)
      else do {
        (add, m) \<leftarrow> lnode_new (the d) n pn pd m;
        if add \<noteq> NULL then do {
          c \<leftarrow> get_len l m;
          m \<leftarrow> (if c = 0 then do {
                  m \<leftarrow> set_head l add m;
                  set_tail l add m }
                else do {
                  t \<leftarrow> get_tail l m;
                  m \<leftarrow> set_next t add m;
                  t \<leftarrow> get_tail l m;
                  m \<leftarrow> set_prev add t m;
                  t \<leftarrow> get_tail l m;
                  tn \<leftarrow> get_next t m;
                  set_tail l tn m });
          c \<leftarrow> get_len l m;
          m \<leftarrow> set_len l (c + 1) m;
          Some (LLIST_OK, m) }
        else Some (LLIST_ALLOC_ERR, m) })"

text \<open>\<^verbatim>\<open>llist_ins\<close>: appends through \<^verbatim>\<open>llist_add\<close> when the list is empty or the index
  is not below the length, links the new node in front of the head for index 0, and
  otherwise between the node before the index and that node's successor.\<close>

definition llist_ins ::
  "ptr \<Rightarrow> byte list option \<Rightarrow> size_t \<Rightarrow> size_t \<Rightarrow> ptr \<Rightarrow> ptr \<Rightarrow> mem \<Rightarrow> (int \<times> mem) option" where
  "llist_ins l d n i pn pd m =
     (if l = NULL \<or> d = None \<or> n = 0 then Some (LLIST_NULL_ERR, m)
      else do {
        c \<leftarrow> get_len l m;
        if c = 0 \<or> i \<ge> c then llist_add l d n pn pd m
        else do {
          (ins, m) \<leftarrow> lnode_new (the d) n pn pd m;
          if ins \<noteq> NULL then do {
            m \<leftarrow> (if i = 0 then do {
                    h \<leftarrow> get_head l m;
                    m \<leftarrow> set_prev h ins m;
                    h \<leftarrow> get_head l m;
                    m \<leftarrow> set_next ins h m;
                    h \<leftarrow> get_head l m;
                    hp \<leftarrow> get_prev h m;
                    set_head l hp m }
                  else do {
                    bef \<leftarrow> lnode_get l (i - 1) m;
                    aft \<leftarrow> get_next bef m;
                    m \<leftarrow> set_next bef ins m;
                    m \<leftarrow> set_prev ins bef m;
                    m \<leftarrow> set_prev aft ins m;
                    set_next ins aft m });
            c \<leftarrow> get_len l m;
            m \<leftarrow> set_len l (c + 1) m;
            Some (LLIST_OK, m) }
          else Some (LLIST_ALLOC_ERR, m) } })"

text \<open>\<^verbatim>\<open>lnode_free\<close> hands the payload pointer out and releases the node only;
  \<^verbatim>\<open>lnode_free_whole\<close> releases the payload as well. Both clear the fields first.\<close>

definition lnode_free :: "ptr \<Rightarrow> mem \<Rightarrow> (ptr \<times> mem) option" where
  "lnode_free n m =
     (if n \<noteq> NULL then do {
        ret \<leftarrow> get_data n m;
        m \<leftarrow> set_prev n NULL m;
        m \<leftarrow> set_next n NULL m;
        m \<leftarrow> set_data n NULL m;
        m \<leftarrow> free_node n m;
        Some (ret, m) }
      else Some (NULL, m))"

definition lnode_free_whole :: "ptr \<Rightarrow> mem \<Rightarrow> mem option" where
  "lnode_free_whole n m =
     (if n \<noteq> NULL then do {
        d \<leftarrow> get_data n m;
        m \<leftarrow> free_buf d m;
        m \<leftarrow> set_prev n NULL m;
        m \<leftarrow> set_next n NULL m;
        m \<leftarrow> set_data n NULL m;
        free_node n m }
      else Some m)"

text \<open>\<^verbatim>\<open>llist_del\<close>: the branch is chosen by the index as passed, the node by the
  clamped one.\<close>

definition llist_del :: "ptr \<Rightarrow> size_t \<Rightarrow> mem \<Rightarrow> (ptr \<times> mem) option" where
  "llist_del l i m = do {
     node \<leftarrow> lnode_get l i m;
     m \<leftarrow> (if node \<noteq> NULL then do {
             c \<leftarrow> get_len l m;
             m \<leftarrow> (if c = 1 then do {
                     m \<leftarrow> set_head l NULL m;
                     set_tail l NULL m }
                   else if i = 0 then do {
                     h \<leftarrow> get_head l m;
                     hn \<leftarrow> get_next h m;
                     m \<leftarrow> set_head l hn m;
                     h \<leftarrow> get_head l m;
                     set_prev h NULL m }
                   else if i \<ge> c - 1 then do {
                     t \<leftarrow> get_tail l m;
                     tp \<leftarrow> get_prev t m;
                     m \<leftarrow> set_tail l tp m;
                     t \<leftarrow> get_tail l m;
                     set_next t NULL m }
                   else do {
                     np \<leftarrow> get_prev node m;
                     nn \<leftarrow> get_next node m;
                     m \<leftarrow> set_next np nn m;
                     nn \<leftarrow> get_next node m;
                     np \<leftarrow> get_prev node m;
                     set_prev nn np m });
             c \<leftarrow> get_len l m;
             set_len l (c - 1) m }
           else Some m);
     lnode_free node m }"

text \<open>The loop of \<^verbatim>\<open>llist_clear\<close>. Every round releases a live node, so the number of
  live nodes is a measure.\<close>

function clear_loop :: "ptr \<Rightarrow> mem \<Rightarrow> mem option" where
  "clear_loop current m =
     (if current \<noteq> NULL then do {
        nx \<leftarrow> get_next current m;
        m' \<leftarrow> lnode_free_whole current m;
        clear_loop nx m' }
      else Some m)"
  by pat_completeness auto
termination
proof (relation "measure (\<lambda>(current, m). card (dom (nodes m)))")
  fix current nx :: ptr and m m' :: mem
  assume c: "current \<noteq> NULL" and f: "lnode_free_whole current m = Some m'"
  from c f have "nodes m' = (nodes m)(current := None) \<and> nodes m current \<noteq> None"
    by (auto simp: lnode_free_whole_def get_data_def node_at_def free_buf_def set_prev_def
        set_next_def set_data_def free_node_def split: if_splits option.splits bind_splits)
  then have "dom (nodes m') = dom (nodes m) - {current}" and "current \<in> dom (nodes m)"
    by auto
  then have "card (dom (nodes m')) < card (dom (nodes m))"
    using card_Diff1_less [of "dom (nodes m)" current] by simp
  then show "((nx, m'), (current, m)) \<in> measure (\<lambda>(current, m). card (dom (nodes m)))"
    by simp
qed simp

text \<open>\<^verbatim>\<open>llist_clear\<close>.\<close>

definition llist_clear :: "ptr \<Rightarrow> mem \<Rightarrow> mem option" where
  "llist_clear l m = do {
     e \<leftarrow> llist_empty l m;
     if \<not> e then do {
       h \<leftarrow> get_head l m;
       m \<leftarrow> clear_loop h m;
       m \<leftarrow> set_len l 0 m;
       m \<leftarrow> set_head l NULL m;
       set_tail l NULL m }
     else Some m }"

section \<open>The invariant of a list\<close>

text \<open>
  \<open>dlist m pv p as\<close>: walking \<^verbatim>\<open>next\<close> from \<open>p\<close> meets exactly the live nodes \<open>as\<close>, in
  this order, and then \<open>NULL\<close>; the \<^verbatim>\<open>prev\<close> field of each node points to the node
  before it, and that of the first one to \<open>pv\<close>.
\<close>

fun dlist :: "mem \<Rightarrow> ptr \<Rightarrow> ptr \<Rightarrow> ptr list \<Rightarrow> bool" where
  "dlist m pv p [] = (p = NULL)"
| "dlist m pv p (a # as) =
     (p = a \<and> (case node_at m a of None \<Rightarrow> False
                | Some nd \<Rightarrow> prev nd = pv \<and> dlist m a (nxt nd) as))"

text \<open>The payload pointer of a node, and the bytes it refers to.\<close>

definition payload :: "mem \<Rightarrow> ptr \<Rightarrow> ptr" where
  "payload m a = (case node_at m a of None \<Rightarrow> NULL | Some nd \<Rightarrow> data nd)"

definition elems :: "mem \<Rightarrow> ptr list \<Rightarrow> byte list option list" where
  "elems m as = map (\<lambda>a. bufs m (payload m a)) as"

text \<open>
  \<open>llist_inv m l as\<close>: the header at \<open>l\<close> is live and describes the chain of nodes \<open>as\<close>.
  \<^item> the chain from \<^verbatim>\<open>head\<close> is \<open>as\<close>, with consistent links in both directions;
  \<^item> \<^verbatim>\<open>tail\<close> is the last node of the chain, or \<open>NULL\<close> when there is none;
  \<^item> \<^verbatim>\<open>len\<close> is the number of nodes;
  \<^item> no node occurs twice (the chain has no cycle);
  \<^item> every node owns a live payload buffer of its own.
\<close>

definition llist_inv :: "mem \<Rightarrow> ptr \<Rightarrow> ptr list \<Rightarrow> bool" where
  "llist_inv m l as =
     (case list_at m l of None \<Rightarrow> False
      | Some L \<Rightarrow>
          dlist m NULL (head L) as \<and>
          tail L = (if as = [] then NULL else last as) \<and>
          unat (len L) = length as \<and>
          distinct as \<and>
          distinct (map (payload m) as) \<and>
          list_all (\<lambda>a. payload m a \<noteq> NULL \<and> bufs m (payload m a) \<noteq> None) as)"

text \<open>
  A segment of the chain, used in the proofs: \<open>dseg m pv p as q\<close> is \<open>dlist\<close> with
  the pointer \<open>q\<close> in place of the final \<open>NULL\<close>.
\<close>

fun dseg :: "mem \<Rightarrow> ptr \<Rightarrow> ptr \<Rightarrow> ptr list \<Rightarrow> ptr \<Rightarrow> bool" where
  "dseg m pv p [] q = (p = q)"
| "dseg m pv p (a # as) q =
     (p = a \<and> (case node_at m a of None \<Rightarrow> False
                | Some nd \<Rightarrow> prev nd = pv \<and> dseg m a (nxt nd) as q))"


section \<open>Calls, runs and the specification of the lookup\<close>

text \<open>
  A call of one of the six public functions, with the results of the allocator where the
  function allocates, and what it returns. \<open>exec\<close> dispatches a call to the function.
\<close>

datatype call =
  Init
  | Get size_t
  | Add "byte list option" size_t ptr ptr
  | Ins "byte list option" size_t size_t ptr ptr
  | Del size_t
  | Clear

datatype ret = Status int | Elem ptr | Void

fun exec :: "ptr \<Rightarrow> call \<Rightarrow> mem \<Rightarrow> (ret \<times> mem) option" where
  "exec l Init m = map_option (\<lambda>(r, m'). (Status r, m')) (llist_init l m)"
| "exec l (Get i) m = map_option (\<lambda>p. (Elem p, m)) (llist_get l i m)"
| "exec l (Add d n pn pd) m = map_option (\<lambda>(r, m'). (Status r, m')) (llist_add l d n pn pd m)"
| "exec l (Ins d n i pn pd) m = map_option (\<lambda>(r, m'). (Status r, m')) (llist_ins l d n i pn pd m)"
| "exec l (Del i) m = map_option (\<lambda>(p, m'). (Elem p, m')) (llist_del l i m)"
| "exec l Clear m = map_option (\<lambda>m'. (Void, m')) (llist_clear l m)"

text \<open>
  What a call may rely on from its environment: \<^verbatim>\<open>malloc\<close> returns \<open>NULL\<close> or fresh
  storage, and a data pointer that is not \<open>NULL\<close> refers to at least as many readable
  bytes as the length passed with it.
\<close>

definition readable :: "byte list option \<Rightarrow> size_t \<Rightarrow> bool" where
  "readable d n = (case d of None \<Rightarrow> True | Some bs \<Rightarrow> unat n \<le> length bs)"

fun pre :: "mem \<Rightarrow> call \<Rightarrow> bool" where
  "pre m (Add d n pn pd) = (fresh_node m pn \<and> fresh_buf m pd \<and> readable d n)"
| "pre m (Ins d n i pn pd) = (fresh_node m pn \<and> fresh_buf m pd \<and> readable d n)"
| "pre m c = True"

text \<open>The chain of nodes after a call on a list whose chain is \<open>as\<close>.\<close>

fun model :: "call \<Rightarrow> ptr list \<Rightarrow> ptr list" where
  "model Init as = []"
| "model (Get i) as = as"
| "model (Add d n pn pd) as =
     (if d = None \<or> n = 0 \<or> pn = NULL \<or> pd = NULL then as else as @ [pn])"
| "model (Ins d n i pn pd) as =
     (if d = None \<or> n = 0 \<or> pn = NULL \<or> pd = NULL then as
      else if length as \<le> unat i then as @ [pn]
      else take (unat i) as @ pn # drop (unat i) as)"
| "model (Del i) as =
     (let k = min (unat i) (length as - 1) in take k as @ drop (Suc k) as)"
| "model Clear as = []"

text \<open>
  A run of calls on the list at \<open>l\<close>; \<open>None\<close> when a call meets undefined behaviour or
  the environment breaks \<open>pre\<close>. The states of a list that a program can reach are the
  results of the runs that start with \<open>Init\<close> on a live header.
\<close>

fun run :: "ptr \<Rightarrow> call list \<Rightarrow> mem \<Rightarrow> mem option" where
  "run l [] m = Some m"
| "run l (c # cs) m =
     (if pre m c then (case exec l c m of None \<Rightarrow> None | Some (r, m') \<Rightarrow> run l cs m')
      else None)"

text \<open>
  A sequence of calls of \<^verbatim>\<open>llist_add\<close>, each given as the source bytes, the length and
  the two results of the allocator; \<open>Some\<close> only when the allocator returned fresh storage
  for every call and every call returned \<open>LLIST_OK\<close>.
\<close>

fun add_seq :: "ptr \<Rightarrow> (byte list \<times> size_t \<times> ptr \<times> ptr) list \<Rightarrow> mem \<Rightarrow> mem option" where
  "add_seq l [] m = Some m"
| "add_seq l ((d, n, pn, pd) # xs) m =
     (if fresh_node m pn \<and> fresh_buf m pd then
        (case llist_add l (Some d) n pn pd m of
           None \<Rightarrow> None
         | Some (r, m') \<Rightarrow> if r = LLIST_OK then add_seq l xs m' else None)
      else None)"

text \<open>
  The specification of the lookup, in the words of the design: clamp the index to the
  last one and walk forward from the head, one \<^verbatim>\<open>next\<close> link per step.
\<close>

fun walk_fwd :: "mem \<Rightarrow> ptr \<Rightarrow> nat \<Rightarrow> ptr option" where
  "walk_fwd m p 0 = Some p"
| "walk_fwd m p (Suc k) = do { q \<leftarrow> get_next p m; walk_fwd m q k }"

definition naive_get :: "ptr \<Rightarrow> size_t \<Rightarrow> mem \<Rightarrow> ptr option" where
  "naive_get l i m = do {
     n \<leftarrow> get_len l m;
     h \<leftarrow> get_head l m;
     walk_fwd m h (unat (if i \<ge> n then n - 1 else i)) }"

text \<open>The empty list is the one with no head, and the one with no tail.\<close>

definition empty_consistent :: "mem \<Rightarrow> ptr \<Rightarrow> bool" where
  "empty_consistent m l =
     (case list_at m l of None \<Rightarrow> False
      | Some L \<Rightarrow> (len L = 0 \<longleftrightarrow> head L = NULL) \<and> (head L = NULL \<longleftrightarrow> tail L = NULL))"

section \<open>Example memories\<close>

text \<open>
  One list header at address 1: empty in \<open>mem0\<close>, holding the elements "A", "B" in
  \<open>mem2\<close> and "A", "B", "C" in \<open>mem3\<close>. The nodes are at 16, 48 and 80, their payloads
  at 32, 64 and 96.
\<close>

definition mem0 :: mem where
  "mem0 = \<lparr>lists = [1 \<mapsto> \<lparr>head = NULL, tail = NULL, len = 0\<rparr>], nodes = Map.empty, bufs = Map.empty\<rparr>"

definition mem1 :: mem where
  "mem1 = \<lparr>lists = [1 \<mapsto> \<lparr>head = 16, tail = 16, len = 1\<rparr>],
           nodes = [16 \<mapsto> \<lparr>data = 32, prev = NULL, nxt = NULL\<rparr>],
           bufs = [32 \<mapsto> [65]]\<rparr>"

definition mem2 :: mem where
  "mem2 = \<lparr>lists = [1 \<mapsto> \<lparr>head = 16, tail = 48, len = 2\<rparr>],
           nodes = [16 \<mapsto> \<lparr>data = 32, prev = NULL, nxt = 48\<rparr>,
                    48 \<mapsto> \<lparr>data = 64, prev = 16, nxt = NULL\<rparr>],
           bufs = [32 \<mapsto> [65], 64 \<mapsto> [66]]\<rparr>"

definition mem3 :: mem where
  "mem3 = \<lparr>lists = [1 \<mapsto> \<lparr>head = 16, tail = 80, len = 3\<rparr>],
           nodes = [16 \<mapsto> \<lparr>data = 32, prev = NULL, nxt = 48\<rparr>,
                    48 \<mapsto> \<lparr>data = 64, prev = 16, nxt = 80\<rparr>,
                    80 \<mapsto> \<lparr>data = 96, prev = 48, nxt = NULL\<rparr>],
           bufs = [32 \<mapsto> [65], 64 \<mapsto> [66], 96 \<mapsto> [67]]\<rparr>"

text \<open>
  \<open>mem3_cut\<close> is \<open>mem3\<close> with the \<^verbatim>\<open>next\<close> link of the first node cleared: the chain from
  the head stops after one node, while the \<^verbatim>\<open>prev\<close> links from the tail are intact.
\<close>

definition mem3_cut :: mem where
  "mem3_cut = \<lparr>lists = [1 \<mapsto> \<lparr>head = 16, tail = 80, len = 3\<rparr>],
           nodes = [16 \<mapsto> \<lparr>data = 32, prev = NULL, nxt = NULL\<rparr>,
                    48 \<mapsto> \<lparr>data = 64, prev = 16, nxt = 80\<rparr>,
                    80 \<mapsto> \<lparr>data = 96, prev = 48, nxt = NULL\<rparr>],
           bufs = [32 \<mapsto> [65], 64 \<mapsto> [66], 96 \<mapsto> [67]]\<rparr>"

section \<open>Basic facts\<close>

declare walk_next.simps [simp del] walk_prev.simps [simp del] clear_loop.simps [simp del]

lemma list_at_nonnull: "list_at m l = Some L \<Longrightarrow> l \<noteq> NULL"
  by (auto simp: list_at_def)

lemma node_at_nonnull: "node_at m p = Some nd \<Longrightarrow> p \<noteq> NULL"
  by (auto simp: node_at_def)

lemma word64_length_bound:
  fixes as :: "ptr list"
  assumes "distinct as" "NULL \<notin> set as"
  shows "length as < 2 ^ 64"
proof -
  have "set as \<subseteq> UNIV - {NULL}" using assms by auto
  then have "card (set as) \<le> card (UNIV - {NULL})"
    by (intro card_mono) auto
  also have "\<dots> = 2 ^ 64 - 1"
    by (simp add: card_Diff_singleton card_word)
  finally show ?thesis using assms(1) by (simp add: distinct_card)
qed

lemma dlist_iff:
  "dlist m pv p as \<longleftrightarrow>
     p = (if as = [] then NULL else hd as) \<and>
     (\<forall>k<length as. \<exists>nd. node_at m (as ! k) = Some nd \<and>
         prev nd = (if k = 0 then pv else as ! (k - 1)) \<and>
         nxt nd = (if Suc k < length as then as ! Suc k else NULL))"
proof (induction as arbitrary: pv p)
  case Nil
  then show ?case by simp
next
  case (Cons a as)
  have hd: "(if as = [] then NULL else hd as) = (if 0 < length as then as ! 0 else NULL)"
    by (simp add: hd_conv_nth)
  have "dlist m pv p (a # as) \<longleftrightarrow>
        p = a \<and> (\<exists>nd. node_at m a = Some nd \<and> prev nd = pv \<and> dlist m a (nxt nd) as)"
    by (simp split: option.splits)
  also have "\<dots> \<longleftrightarrow> p = a \<and> (\<exists>nd. node_at m a = Some nd \<and> prev nd = pv \<and>
        nxt nd = (if 0 < length as then as ! 0 else NULL)) \<and>
        (\<forall>k<length as. \<exists>nd. node_at m (as ! k) = Some nd \<and>
         prev nd = (if k = 0 then a else as ! (k - 1)) \<and>
         nxt nd = (if Suc k < length as then as ! Suc k else NULL))"
    unfolding Cons.IH hd by blast
  also have "\<dots> \<longleftrightarrow> p = (if a # as = [] then NULL else hd (a # as)) \<and>
     (\<forall>k<length (a # as). \<exists>nd. node_at m ((a # as) ! k) = Some nd \<and>
         prev nd = (if k = 0 then pv else (a # as) ! (k - 1)) \<and>
         nxt nd = (if Suc k < length (a # as) then (a # as) ! Suc k else NULL))"
    by (simp add: All_less_Suc2 nth_Cons' cong: conj_cong)
  finally show ?case .
qed


lemma llist_inv_iff:
  "llist_inv m l as \<longleftrightarrow>
     (\<exists>L. list_at m l = Some L \<and>
        head L = (if as = [] then NULL else hd as) \<and>
        tail L = (if as = [] then NULL else last as) \<and>
        unat (len L) = length as \<and>
        distinct as \<and>
        (\<forall>k<length as. \<exists>nd. node_at m (as ! k) = Some nd \<and>
           prev nd = (if k = 0 then NULL else as ! (k - 1)) \<and>
           nxt nd = (if Suc k < length as then as ! Suc k else NULL)) \<and>
        distinct (map (payload m) as) \<and>
        (\<forall>a\<in>set as. payload m a \<noteq> NULL \<and> bufs m (payload m a) \<noteq> None))"
  by (auto simp add: llist_inv_def dlist_iff list_all_iff split: option.splits)

lemma unat_succ: "(j::size_t) < k \<Longrightarrow> unat (j + 1) = Suc (unat j)"
  by unat_arith

lemma walk_next_nth:
  assumes "\<forall>k<length as. \<exists>nd. node_at m (as ! k) = Some nd \<and>
             nxt nd = (if Suc k < length as then as ! Suc k else NULL)"
  shows "unat k - unat j = s \<Longrightarrow> j \<le> k \<Longrightarrow> pos + s < length as \<Longrightarrow>
         walk_next m (as ! pos) j k = Some (as ! (pos + s))"
proof (induction s arbitrary: j pos)
  case 0
  then have "\<not> j < k" by unat_arith
  then show ?case by (simp add: walk_next.simps walk_prev.simps)
next
  case (Suc s)
  then have jk: "j < k" by unat_arith
  then have u: "unat (j + 1) = Suc (unat j)" by (rule unat_succ)
  have le: "j + 1 \<le> k" using jk by (rule inc_le)
  have "pos < length as" and "Suc pos < length as" using Suc.prems by auto
  then have nx: "get_next (as ! pos) m = Some (as ! Suc pos)"
    using assms [rule_format, of pos] by (auto simp: get_next_def)
  have "walk_next m (as ! Suc pos) (j + 1) k = Some (as ! (Suc pos + s))"
    using Suc.prems u le by (intro Suc.IH) auto
  then show ?case
    using jk nx by (subst walk_next.simps) simp
qed

lemma walk_prev_nth:
  assumes "\<forall>k<length as. \<exists>nd. node_at m (as ! k) = Some nd \<and>
             prev nd = (if k = 0 then NULL else as ! (k - 1))"
  shows "unat k - unat j = s \<Longrightarrow> j \<le> k \<Longrightarrow> s \<le> pos \<Longrightarrow> pos < length as \<Longrightarrow>
         walk_prev m (as ! pos) j k = Some (as ! (pos - s))"
proof (induction s arbitrary: j pos)
  case 0
  then have "\<not> j < k" by unat_arith
  then show ?case by (simp add: walk_next.simps walk_prev.simps)
next
  case (Suc s)
  then have jk: "j < k" by unat_arith
  then have u: "unat (j + 1) = Suc (unat j)" by (rule unat_succ)
  have le: "j + 1 \<le> k" using jk by (rule inc_le)
  have "pos < length as" and "pos \<noteq> 0" using Suc.prems by auto
  then have nx: "get_prev (as ! pos) m = Some (as ! (pos - 1))"
    using assms [rule_format, of pos] by (auto simp: get_prev_def)
  have "walk_prev m (as ! (pos - 1)) (j + 1) k = Some (as ! (pos - 1 - s))"
    using Suc.prems u le by (intro Suc.IH) auto
  then show ?case
    using jk nx by (subst walk_prev.simps) simp
qed

lemma llist_inv_len0: "llist_inv m l as \<Longrightarrow> list_at m l = Some L \<Longrightarrow> (len L = 0) = (as = [])"
  by (auto simp: llist_inv_iff unat_eq_zero)

lemma llist_inv_walks:
  assumes inv: "llist_inv m l as" and L: "list_at m l = Some L" and i: "i < len L"
  shows "walk_next m (head L) 0 i = Some (as ! unat i)"
    and "walk_prev m (tail L) 0 (len L - i - 1) = Some (as ! unat i)"
proof -
  from inv L have un: "unat (len L) = length as" 
    and links: "\<forall>k<length as. \<exists>nd. node_at m (as ! k) = Some nd \<and>
           prev nd = (if k = 0 then NULL else as ! (k - 1)) \<and>
           nxt nd = (if Suc k < length as then as ! Suc k else NULL)"
    and hd: "head L = (if as = [] then NULL else hd as)"
    and tl: "tail L = (if as = [] then NULL else last as)"
    by (auto simp: llist_inv_iff)
  from i un have ui: "unat i < length as" by (simp add: word_less_nat_alt)
  then have ne: "as \<noteq> []" by auto
  have ln: "\<forall>k<length as. \<exists>nd. node_at m (as ! k) = Some nd \<and>
           nxt nd = (if Suc k < length as then as ! Suc k else NULL)"
    and lp: "\<forall>k<length as. \<exists>nd. node_at m (as ! k) = Some nd \<and>
           prev nd = (if k = 0 then NULL else as ! (k - 1))"
    using links by blast+
  have "walk_next m (as ! 0) 0 i = Some (as ! (0 + unat i))"
    using ui by (intro walk_next_nth [OF ln]) auto
  then show "walk_next m (head L) 0 i = Some (as ! unat i)"
    using hd ne by (simp add: hd_conv_nth)
  have uk: "unat (len L - i - 1) = length as - unat i - 1"
    using i un by unat_arith
  have "walk_prev m (as ! (length as - 1)) 0 (len L - i - 1) = Some (as ! (length as - 1 - (length as - unat i - 1)))"
    using ui uk by (intro walk_prev_nth [OF lp]) auto
  then show "walk_prev m (tail L) 0 (len L - i - 1) = Some (as ! unat i)"
    using tl ne ui by (simp add: last_conv_nth)
qed

lemma lnode_get_inv:
  assumes inv: "llist_inv m l as"
  shows "lnode_get l i m = Some (if as = [] then NULL else as ! min (unat i) (length as - 1))"
proof -
  from inv obtain L where L: "list_at m l = Some L" and un: "unat (len L) = length as"
    by (auto simp: llist_inv_iff)
  show ?thesis
  proof (cases "as = []")
    case True
    with un have "len L = 0" by (simp add: unat_eq_zero)
    with True L show ?thesis by (simp add: lnode_get_def llist_empty_def get_len_def)
  next
    case False
    with un have n0: "len L \<noteq> 0" by auto
    define i' where "i' = (if i \<ge> len L then len L - 1 else i)"
    have lt: "i' < len L" using n0 unfolding i'_def by unat_arith
    have ui: "unat i' = min (unat i) (length as - 1)"
      using n0 un unfolding i'_def by unat_arith
    note w = llist_inv_walks [OF inv L lt]
    show ?thesis
      using L n0 False w ui list_at_nonnull [OF L]
      by (simp add: lnode_get_def llist_empty_def get_len_def get_tail_def get_head_def
          Let_def i'_def [symmetric])
  qed
qed

lemma llist_get_inv:
  assumes inv: "llist_inv m l as"
  shows "llist_get l i m = Some (if as = [] then NULL else payload m (as ! min (unat i) (length as - 1)))"
proof (cases "as = []")
  case True
  then show ?thesis using lnode_get_inv [OF inv, of i] by (simp add: llist_get_def)
next
  case False
  let ?k = "min (unat i) (length as - 1)"
  have k: "?k < length as" using False by (cases as) (auto simp: min_def)
  with inv obtain nd where "node_at m (as ! ?k) = Some nd"
    unfolding llist_inv_iff by blast
  then show ?thesis
    using lnode_get_inv [OF inv, of i] False node_at_nonnull [of m "as ! ?k" nd]
    by (simp add: llist_get_def get_data_def payload_def)
qed

lemma lnode_new_ok:
  "pn \<noteq> NULL \<Longrightarrow> pd \<noteq> NULL \<Longrightarrow> unat n \<le> length bs \<Longrightarrow>
   lnode_new bs n pn pd m =
     Some (pn, m\<lparr>nodes := (nodes m)(pn \<mapsto> \<lparr>data = pd, prev = NULL, nxt = NULL\<rparr>),
                 bufs := (bufs m)(pd \<mapsto> take (unat n) bs)\<rparr>)"
  by (simp add: lnode_new_def)

lemma lnode_new_fail:
  "pn = NULL \<or> pd = NULL \<and> nodes m pn = None \<Longrightarrow> lnode_new bs n pn pd m = Some (NULL, m)"
  by (auto simp: lnode_new_def free_node_def fun_upd_idem)


lemma dlist_dseg: "dlist m pv p as = dseg m pv p as NULL"
  by (induction as arbitrary: pv p) (auto split: option.splits)

lemma dseg_append:
  "dseg m pv p (as @ bs) q \<longleftrightarrow>
     (\<exists>r. dseg m pv p as r \<and> dseg m (if as = [] then pv else last as) r bs q)"
  by (induction as arbitrary: pv p) (auto split: option.splits)

lemma dseg_frame:
  "(\<And>a. a \<in> set as \<Longrightarrow> node_at m' a = node_at m a) \<Longrightarrow> dseg m' pv p as q = dseg m pv p as q"
  by (induction as arbitrary: pv p) (auto split: option.splits)


lemma dseg_Cons:
  "dseg m pv p (a # as) q \<longleftrightarrow>
     p = a \<and> (\<exists>nd. node_at m a = Some nd \<and> prev nd = pv \<and> dseg m a (nxt nd) as q)"
  by (auto split: option.splits)

lemma dseg_single:
  "dseg m pv p [a] q \<longleftrightarrow> p = a \<and> (\<exists>nd. node_at m a = Some nd \<and> prev nd = pv \<and> nxt nd = q)"
  by (auto split: option.splits)

declare dseg.simps(2) [simp del]
declare dseg_Cons [simp]

lemma dseg_live: "dseg m pv p as q \<Longrightarrow> a \<in> set as \<Longrightarrow> \<exists>nd. node_at m a = Some nd"
  by (induction as arbitrary: pv p) (auto split: option.splits)

lemma dseg_start: "dseg m pv p as q \<Longrightarrow> p = (if as = [] then q else hd as)"
  by (cases as) (auto split: option.splits)

lemma llist_inv_seg:
  "llist_inv m l as \<longleftrightarrow>
     (\<exists>L. list_at m l = Some L \<and>
        dseg m NULL (head L) as NULL \<and>
        tail L = (if as = [] then NULL else last as) \<and>
        unat (len L) = length as \<and>
        distinct as \<and>
        distinct (map (payload m) as) \<and>
        (\<forall>a\<in>set as. payload m a \<noteq> NULL \<and> bufs m (payload m a) \<noteq> None))"
  by (auto simp add: llist_inv_def dlist_dseg list_all_iff split: option.splits)

lemma llist_invI:
  assumes "list_at m l = Some L"
    and "dseg m NULL (head L) as NULL"
    and "tail L = (if as = [] then NULL else last as)"
    and "unat (len L) = length as"
    and "distinct as"
    and "distinct (map (payload m) as)"
    and "\<And>a. a \<in> set as \<Longrightarrow> payload m a \<noteq> NULL \<and> bufs m (payload m a) \<noteq> None"
  shows "llist_inv m l as"
  unfolding llist_inv_seg using assms by blast

lemma dseg_nonnull: "dseg m pv p as q \<Longrightarrow> NULL \<notin> set as"
  using dseg_live node_at_nonnull by blast

lemma dseg_fresh: "dseg m pv p as q \<Longrightarrow> nodes m pn = None \<Longrightarrow> pn \<notin> set as"
  using dseg_live [of m pv p as q pn] by (auto simp: node_at_def split: if_splits)

lemma unat_len_succ:
  fixes as :: "ptr list"
  assumes "distinct as" "NULL \<notin> set as" "pn \<notin> set as" "pn \<noteq> NULL" "unat (c::size_t) = length as"
  shows "unat (c + 1) = Suc (length as)"
proof -
  have "length (pn # as) < 2 ^ 64"
    using assms by (intro word64_length_bound) auto
  then have "unat c + 1 < 2 ^ 64" using assms by simp
  then show ?thesis using assms(5) by (simp add: unat_word_ariths)
qed

lemma llist_add_inv:
  assumes inv: "llist_inv m l as"
    and d: "n \<noteq> 0" "unat n \<le> length bs"
    and p: "pn \<noteq> NULL" "pd \<noteq> NULL" "nodes m pn = None" "bufs m pd = None"
  shows "\<exists>m'. llist_add l (Some bs) n pn pd m = Some (LLIST_OK, m') \<and> llist_inv m' l (as @ [pn]) \<and>
          bufs m' = (bufs m)(pd \<mapsto> take (unat n) bs) \<and> payload m' pn = pd \<and>
          (\<forall>a\<in>set as. payload m' a = payload m a)"
proof -
  from inv obtain L where L: "list_at m l = Some L"
    and seg: "dseg m NULL (head L) as NULL"
    and tl: "tail L = (if as = [] then NULL else last as)"
    and un: "unat (len L) = length as"
    and dist: "distinct as"
    and pdist: "distinct (map (payload m) as)"
    and plive: "\<forall>a\<in>set as. payload m a \<noteq> NULL \<and> bufs m (payload m a) \<noteq> None"
    unfolding llist_inv_seg by blast
  note l0 = list_at_nonnull [OF L]
  have fresh: "pn \<notin> set as" and nn: "NULL \<notin> set as"
    using seg p(3) by (auto dest: dseg_fresh dseg_nonnull)
  have un': "unat (len L + 1) = Suc (length as)"
    using dist nn fresh p(1) un by (rule unat_len_succ)
  have pdfresh: "pd \<notin> payload m ` set as"
    using plive p(4) by auto
  show ?thesis
  proof (cases "as = []")
    case True
    with un have c0: "len L = 0" by (simp add: unat_eq_zero)
    define m' where "m' = m\<lparr>nodes := (nodes m)(pn \<mapsto> \<lparr>data = pd, prev = NULL, nxt = NULL\<rparr>),
              bufs := (bufs m)(pd \<mapsto> take (unat n) bs),
              lists := (lists m)(l \<mapsto> L\<lparr>head := pn, tail := pn, len := 1\<rparr>)\<rparr>"
    have r: "llist_add l (Some bs) n pn pd m = Some (LLIST_OK, m')"
      using L c0 d p l0 unfolding m'_def
      by (simp add: llist_add_def lnode_new_ok get_len_def list_at_def set_head_def set_tail_def set_len_def)
    have "llist_inv m' l (as @ [pn])"
      using True p l0 unfolding llist_inv_seg
      by (simp add: m'_def list_at_def node_at_def payload_def)
    then show ?thesis using r True p by (simp add: m'_def payload_def node_at_def)
  next
    case False
    then obtain xs t where as: "as = xs @ [t]" by (cases as rule: rev_cases) auto
    from seg as obtain nd where t: "node_at m t = Some nd" "dseg m NULL (head L) xs t"
       "prev nd = (if xs = [] then NULL else last xs)" "nxt nd = NULL"
      by (auto simp: dseg_append dseg_single dest: dseg_start)
    have tn: "t \<noteq> pn" "t \<noteq> NULL" "tail L = t" using fresh nn as tl by auto
    define m' where "m' = m\<lparr>bufs := (bufs m)(pd \<mapsto> take (unat n) bs),
              nodes := (nodes m)(t \<mapsto> nd\<lparr>nxt := pn\<rparr>, pn \<mapsto> \<lparr>data = pd, prev = t, nxt = NULL\<rparr>),
              lists := (lists m)(l \<mapsto> L\<lparr>tail := pn, len := len L + 1\<rparr>)\<rparr>"
    have c0: "len L \<noteq> 0" using un False by auto
    have r: "llist_add l (Some bs) n pn pd m = Some (LLIST_OK, m')"
      using L c0 d p l0 t(1) tn unfolding m'_def
      by (simp add: llist_add_def lnode_new_ok get_len_def list_at_def set_head_def set_tail_def set_len_def
     get_tail_def set_next_def node_at_def set_prev_def get_next_def)
    have n1: "node_at m' pn = Some \<lparr>data = pd, prev = t, nxt = NULL\<rparr>"
      and n2: "node_at m' t = Some (nd\<lparr>nxt := pn\<rparr>)"
      and n3: "\<And>a. a \<noteq> t \<Longrightarrow> a \<noteq> pn \<Longrightarrow> node_at m' a = node_at m a"
      using p(1) tn by (auto simp: m'_def node_at_def)
    have pl1: "payload m' pn = pd" using n1 by (simp add: payload_def)
    have pl2: "payload m' a = payload m a" if "a \<noteq> pn" for a
      using that n2 n3 t(1) by (cases "a = t") (simp_all add: payload_def)
    note pl = pl1 pl2
    have "dseg m' NULL (head L) xs t"
      using t(2) dist fresh as by (subst dseg_frame [where m = m]) (auto intro: n3)
    then have seg': "dseg m' NULL (head L) (as @ [pn]) NULL"
      using n1 n2 t(3,4) unfolding as by (auto simp: dseg_append dseg_single)
    have pm: "map (payload m') as = map (payload m) as"
      by (intro map_cong refl pl2) (use fresh in auto)
    have la: "list_at m' l = Some (L\<lparr>tail := pn, len := len L + 1\<rparr>)"
      using l0 by (simp add: m'_def list_at_def)
    have bf: "bufs m' = (bufs m)(pd \<mapsto> take (unat n) bs)"
      by (simp add: m'_def)
    have "llist_inv m' l (as @ [pn])"
    proof (rule llist_invI [OF la])
      show "dseg m' NULL (head (L\<lparr>tail := pn, len := len L + 1\<rparr>)) (as @ [pn]) NULL"
        using seg' by simp
      show "unat (len (L\<lparr>tail := pn, len := len L + 1\<rparr>)) = length (as @ [pn])"
        using un' by simp
      show "distinct (as @ [pn])" using dist fresh by simp
      show "distinct (map (payload m') (as @ [pn]))"
        using pdist pl1 pdfresh by (simp add: pm)
      show "payload m' a \<noteq> NULL \<and> bufs m' (payload m' a) \<noteq> None" if "a \<in> set (as @ [pn])" for a
        using that plive pl1 pl2 [of a] bf p fresh by (cases "a = pn") auto
    qed simp
    moreover have "\<forall>a\<in>set as. payload m' a = payload m a"
    proof
      fix a assume "a \<in> set as"
      then have "a \<noteq> pn" using fresh by auto
      then show "payload m' a = payload m a" by (rule pl2)
    qed
    ultimately show ?thesis using r pl1 bf by blast
  qed
qed

lemma status_distinct:
  "LLIST_OK \<noteq> LLIST_NULL_ERR" "LLIST_OK \<noteq> LLIST_ALLOC_ERR" "LLIST_NULL_ERR \<noteq> LLIST_ALLOC_ERR"
  "LLIST_NULL_ERR \<noteq> LLIST_OK" "LLIST_ALLOC_ERR \<noteq> LLIST_OK" "LLIST_ALLOC_ERR \<noteq> LLIST_NULL_ERR"
  by (simp_all add: LLIST_OK_def LLIST_NULL_ERR_def LLIST_ALLOC_ERR_def)

lemma llist_add_status:
  assumes "llist_add l d n pn pd m = Some (r, m')"
  shows "(r = LLIST_NULL_ERR \<longleftrightarrow> l = NULL \<or> d = None \<or> n = 0) \<and>
         (r = LLIST_ALLOC_ERR \<longleftrightarrow> \<not> (l = NULL \<or> d = None \<or> n = 0) \<and> (pn = NULL \<or> pd = NULL)) \<and>
         (r = LLIST_OK \<longrightarrow> unat n \<le> length (the d))"
  using assms
  by (auto simp: llist_add_def lnode_new_def status_distinct Let_def free_node_def
      split: if_splits bind_splits)

lemma llist_ins_status:
  assumes "llist_ins l d n i pn pd m = Some (r, m')"
  shows "(r = LLIST_NULL_ERR \<longleftrightarrow> l = NULL \<or> d = None \<or> n = 0) \<and>
         (r = LLIST_ALLOC_ERR \<longleftrightarrow> \<not> (l = NULL \<or> d = None \<or> n = 0) \<and> (pn = NULL \<or> pd = NULL)) \<and>
         (r = LLIST_OK \<longrightarrow> unat n \<le> length (the d))"
proof (cases "l = NULL \<or> d = None \<or> n = 0")
  case True
  then show ?thesis using assms by (auto simp: llist_ins_def status_distinct)
next
  case False
  then obtain c where c: "get_len l m = Some c"
    using assms by (auto simp: llist_ins_def split: bind_splits)
  show ?thesis
  proof (cases "c = 0 \<or> i \<ge> c")
    case True
    then have "llist_ins l d n i pn pd m = llist_add l d n pn pd m"
      using False c by (auto simp add: llist_ins_def)
    with assms have "llist_add l d n pn pd m = Some (r, m')" by simp
    then show ?thesis by (rule llist_add_status)
  next
    case nt: False
    then show ?thesis
      using assms False c
      by (auto simp: llist_ins_def lnode_new_def status_distinct Let_def free_node_def
          split: if_splits bind_splits)
  qed
qed

lemma llist_add_alloc_fail:
  assumes "l \<noteq> NULL" "n \<noteq> 0" "pn = NULL \<or> pd = NULL" "fresh_node m pn"
  shows "llist_add l (Some bs) n pn pd m = Some (LLIST_ALLOC_ERR, m)"
  using assms by (auto simp: llist_add_def fresh_node_def lnode_new_fail)

lemma llist_ins_alloc_fail:
  assumes "list_at m l = Some L" "n \<noteq> 0" "pn = NULL \<or> pd = NULL" "fresh_node m pn"
  shows "llist_ins l (Some bs) n i pn pd m = Some (LLIST_ALLOC_ERR, m)"
  using assms list_at_nonnull [OF assms(1)]
  by (auto simp: llist_ins_def llist_add_def fresh_node_def lnode_new_fail get_len_def)

section \<open>The operations on a list that satisfies the invariant\<close>

lemma payload_frame: "node_at m' a = node_at m a \<Longrightarrow> payload m' a = payload m a"
  by (simp add: payload_def)

lemma llist_inv_frame:
  assumes inv: "llist_inv m l as"
    and la: "list_at m' l = list_at m l"
    and na: "\<And>a. a \<in> set as \<Longrightarrow> node_at m' a = node_at m a"
    and ba: "\<And>a. a \<in> set as \<Longrightarrow> bufs m' (payload m a) = bufs m (payload m a)"
  shows "llist_inv m' l as"
proof -
  from inv obtain L where L: "list_at m l = Some L"
    and seg: "dseg m NULL (head L) as NULL"
    and tl: "tail L = (if as = [] then NULL else last as)"
    and un: "unat (len L) = length as"
    and dist: "distinct as"
    and pdist: "distinct (map (payload m) as)"
    and plive: "\<forall>a\<in>set as. payload m a \<noteq> NULL \<and> bufs m (payload m a) \<noteq> None"
    unfolding llist_inv_seg by blast
  have pm: "map (payload m') as = map (payload m) as"
    by (intro map_cong refl payload_frame na)
  show ?thesis
  proof (rule llist_invI)
    show "list_at m' l = Some L" using la L by simp
    show "dseg m' NULL (head L) as NULL" using seg by (subst dseg_frame [where m = m]) (auto intro: na)
    show "distinct (map (payload m') as)" using pdist by (simp add: pm)
    show "payload m' a \<noteq> NULL \<and> bufs m' (payload m' a) \<noteq> None" if "a \<in> set as" for a
      using that plive ba [OF that] by (simp add: payload_frame [OF na [OF that]])
  qed (use tl un dist in auto)
qed

lemma llist_ins_head_inv:
  assumes inv: "llist_inv m l as" and ne: "as \<noteq> []"
    and d: "n \<noteq> 0" "unat n \<le> length bs"
    and p: "pn \<noteq> NULL" "pd \<noteq> NULL" "nodes m pn = None" "bufs m pd = None"
  shows "\<exists>m'. llist_ins l (Some bs) n 0 pn pd m = Some (LLIST_OK, m') \<and> llist_inv m' l (pn # as) \<and>
          bufs m' = (bufs m)(pd \<mapsto> take (unat n) bs) \<and> payload m' pn = pd \<and>
          (\<forall>a\<in>set as. payload m' a = payload m a)"
proof -
  from inv obtain L where L: "list_at m l = Some L"
    and seg: "dseg m NULL (head L) as NULL"
    and tl: "tail L = (if as = [] then NULL else last as)"
    and un: "unat (len L) = length as"
    and dist: "distinct as"
    and pdist: "distinct (map (payload m) as)"
    and plive: "\<forall>a\<in>set as. payload m a \<noteq> NULL \<and> bufs m (payload m a) \<noteq> None"
    unfolding llist_inv_seg by blast
  note l0 = list_at_nonnull [OF L]
  have fresh: "pn \<notin> set as" and nn: "NULL \<notin> set as"
    using seg p(3) by (auto dest: dseg_fresh dseg_nonnull)
  have un': "unat (len L + 1) = Suc (length as)"
    using dist nn fresh p(1) un by (rule unat_len_succ)
  have pdfresh: "pd \<notin> payload m ` set as"
    using plive p(4) by auto
  from ne obtain h ys where as: "as = h # ys" by (cases as) auto
  from seg as obtain nd where h: "node_at m h = Some nd" "head L = h"
       "prev nd = NULL" "dseg m h (nxt nd) ys NULL"
    by auto
  have hn: "h \<noteq> pn" "h \<noteq> NULL" using fresh nn as by auto
  have c0: "len L \<noteq> 0" "\<not> len L \<le> 0" using un ne by (auto simp: word_le_nat_alt)
  define m' where "m' = m\<lparr>bufs := (bufs m)(pd \<mapsto> take (unat n) bs),
              nodes := (nodes m)(h \<mapsto> nd\<lparr>prev := pn\<rparr>, pn \<mapsto> \<lparr>data = pd, prev = NULL, nxt = h\<rparr>),
              lists := (lists m)(l \<mapsto> L\<lparr>head := pn, len := len L + 1\<rparr>)\<rparr>"
  have r: "llist_ins l (Some bs) n 0 pn pd m = Some (LLIST_OK, m')"
    using L c0 d p l0 h(1,2) hn unfolding m'_def
    by (simp add: llist_ins_def lnode_new_ok get_len_def list_at_def set_head_def set_len_def
        get_head_def set_next_def node_at_def set_prev_def get_prev_def)
  have n1: "node_at m' pn = Some \<lparr>data = pd, prev = NULL, nxt = h\<rparr>"
    and n2: "node_at m' h = Some (nd\<lparr>prev := pn\<rparr>)"
    and n3: "\<And>a. a \<noteq> h \<Longrightarrow> a \<noteq> pn \<Longrightarrow> node_at m' a = node_at m a"
    using p(1) hn by (auto simp: m'_def node_at_def)
  have pl1: "payload m' pn = pd" using n1 by (simp add: payload_def)
  have pl2: "payload m' a = payload m a" if "a \<noteq> pn" for a
    using that n2 n3 h(1) by (cases "a = h") (simp_all add: payload_def)
  have pl3: "\<forall>a\<in>set as. payload m' a = payload m a"
  proof
    fix a assume "a \<in> set as"
    then have "a \<noteq> pn" using fresh by auto
    then show "payload m' a = payload m a" by (rule pl2)
  qed
  have "dseg m' h (nxt nd) ys NULL"
    using h(4) dist fresh as by (subst dseg_frame [where m = m]) (auto intro: n3)
  then have seg': "dseg m' NULL pn (pn # as) NULL"
    using n1 n2 h(3) unfolding as by simp
  have pm: "map (payload m') as = map (payload m) as"
    using pl3 by simp
  have la: "list_at m' l = Some (L\<lparr>head := pn, len := len L + 1\<rparr>)"
    using l0 by (simp add: m'_def list_at_def)
  have bf: "bufs m' = (bufs m)(pd \<mapsto> take (unat n) bs)"
    by (simp add: m'_def)
  have "llist_inv m' l (pn # as)"
  proof (rule llist_invI [OF la])
    show "dseg m' NULL (head (L\<lparr>head := pn, len := len L + 1\<rparr>)) (pn # as) NULL"
      using seg' by simp
    show "unat (len (L\<lparr>head := pn, len := len L + 1\<rparr>)) = length (pn # as)"
      using un' by simp
    show "distinct (pn # as)" using dist fresh by simp
    show "distinct (map (payload m') (pn # as))"
      using pdist pl1 pdfresh by (simp add: pm)
    show "payload m' a \<noteq> NULL \<and> bufs m' (payload m' a) \<noteq> None" if "a \<in> set (pn # as)" for a
      using that plive pl1 pl2 [of a] bf p fresh by (cases "a = pn") auto
  qed (use tl ne in simp)
  then show ?thesis using r pl1 pl3 bf by (intro exI [of _ m']) simp
qed

lemma lnode_new_inv:
  assumes inv: "llist_inv m l as"
    and p: "nodes m pn = None" "bufs m pd = None"
  shows "llist_inv (m\<lparr>nodes := (nodes m)(pn \<mapsto> nd), bufs := (bufs m)(pd \<mapsto> b)\<rparr>) l as"
proof (rule llist_inv_frame [OF inv])
  from inv obtain L where L: "list_at m l = Some L" and seg: "dseg m NULL (head L) as NULL"
    and plive: "\<forall>a\<in>set as. payload m a \<noteq> NULL \<and> bufs m (payload m a) \<noteq> None"
    unfolding llist_inv_seg by blast
  have fresh: "pn \<notin> set as" using seg p(1) by (rule dseg_fresh)
  show "node_at (m\<lparr>nodes := (nodes m)(pn \<mapsto> nd), bufs := (bufs m)(pd \<mapsto> b)\<rparr>) a = node_at m a"
    if "a \<in> set as" for a
    using that fresh by (auto simp: node_at_def)
  show "bufs (m\<lparr>nodes := (nodes m)(pn \<mapsto> nd), bufs := (bufs m)(pd \<mapsto> b)\<rparr>) (payload m a) = bufs m (payload m a)"
    if "a \<in> set as" for a
    using that plive p(2) by auto
qed (simp add: list_at_def)

lemma split_at_two:
  assumes "0 < k" "k < length as"
  shows "\<exists>xs bef aft ys. as = xs @ bef # aft # ys \<and> length xs = k - 1 \<and> bef = as ! (k - 1) \<and> aft = as ! k
          \<and> xs = take (k - 1) as \<and> ys = drop (Suc k) as"
proof -
  have "as = take (k - 1) as @ as ! (k - 1) # drop k as"
    using assms by (metis Suc_pred' id_take_nth_drop less_imp_diff_less)
  moreover have "drop k as = as ! k # drop (Suc k) as"
    using assms by (simp add: Cons_nth_drop_Suc)
  ultimately have "as = take (k - 1) as @ as ! (k - 1) # as ! k # drop (Suc k) as" by simp
  then show ?thesis using assms by (intro exI conjI) (assumption, auto)
qed


lemma llist_ins_mid_inv:
  assumes inv: "llist_inv m l as" and i: "0 < unat i" "unat i < length as"
    and d: "n \<noteq> 0" "unat n \<le> length bs"
    and p: "pn \<noteq> NULL" "pd \<noteq> NULL" "nodes m pn = None" "bufs m pd = None"
  shows "\<exists>m'. llist_ins l (Some bs) n i pn pd m = Some (LLIST_OK, m') \<and>
          llist_inv m' l (take (unat i) as @ pn # drop (unat i) as) \<and>
          bufs m' = (bufs m)(pd \<mapsto> take (unat n) bs) \<and> payload m' pn = pd \<and>
          (\<forall>a\<in>set as. payload m' a = payload m a)"
proof -
  from inv obtain L where L: "list_at m l = Some L"
    and seg: "dseg m NULL (head L) as NULL"
    and tl: "tail L = (if as = [] then NULL else last as)"
    and un: "unat (len L) = length as"
    and dist: "distinct as"
    and pdist: "distinct (map (payload m) as)"
    and plive: "\<forall>a\<in>set as. payload m a \<noteq> NULL \<and> bufs m (payload m a) \<noteq> None"
    unfolding llist_inv_seg by blast
  note l0 = list_at_nonnull [OF L]
  have fresh: "pn \<notin> set as" and nn: "NULL \<notin> set as"
    using seg p(3) by (auto dest: dseg_fresh dseg_nonnull)
  have un': "unat (len L + 1) = Suc (length as)"
    using dist nn fresh p(1) un by (rule unat_len_succ)
  have pdfresh: "pd \<notin> payload m ` set as"
    using plive p(4) by auto
  have ne: "as \<noteq> []" using i by auto
  from split_at_two [OF i] obtain xs bef aft ys where as: "as = xs @ bef # aft # ys"
    and lx: "length xs = unat i - 1" and bef: "bef = as ! (unat i - 1)" and aft: "aft = as ! unat i"
    by blast
  from seg obtain nb na where nb: "node_at m bef = Some nb" "dseg m NULL (head L) xs bef"
      "prev nb = (if xs = [] then NULL else last xs)" "nxt nb = aft"
    and na: "node_at m aft = Some na" "prev na = bef" "dseg m aft (nxt na) ys NULL"
    unfolding as by (auto simp: dseg_append dest: dseg_start)
  have neq: "bef \<noteq> pn" "aft \<noteq> pn" "bef \<noteq> NULL" "aft \<noteq> NULL" "bef \<noteq> aft"
      "bef \<notin> set xs" "aft \<notin> set xs" "bef \<notin> set ys" "aft \<notin> set ys" "pn \<notin> set xs" "pn \<notin> set ys"
    using fresh nn dist unfolding as by auto
  have c0: "len L \<noteq> 0" "\<not> len L \<le> i" "i \<noteq> 0"
    using un ne i by (auto simp: word_le_nat_alt unat_eq_zero)
  define m1 where "m1 = m\<lparr>nodes := (nodes m)(pn \<mapsto> \<lparr>data = pd, prev = NULL, nxt = NULL\<rparr>),
                 bufs := (bufs m)(pd \<mapsto> take (unat n) bs)\<rparr>"
  have inv1: "llist_inv m1 l as"
    unfolding m1_def using inv p(3,4) by (rule lnode_new_inv)
  have ui: "unat (i - 1) = unat i - 1" using i by unat_arith
  have g: "lnode_get l (i - 1) m1 = Some bef"
    using lnode_get_inv [OF inv1, of "i - 1"] ne i bef by (simp add: ui min_def)
  define m' where "m' = m\<lparr>bufs := (bufs m)(pd \<mapsto> take (unat n) bs),
              nodes := (nodes m)(bef \<mapsto> nb\<lparr>nxt := pn\<rparr>, aft \<mapsto> na\<lparr>prev := pn\<rparr>,
                                 pn \<mapsto> \<lparr>data = pd, prev = bef, nxt = aft\<rparr>),
              lists := (lists m)(l \<mapsto> L\<lparr>len := len L + 1\<rparr>)\<rparr>"
  have r: "llist_ins l (Some bs) n i pn pd m = Some (LLIST_OK, m')"
    using L c0 d p l0 nb(1,4) na(1) neq(1-5) g [unfolded m1_def] unfolding m'_def
    by (simp add: llist_ins_def lnode_new_ok get_len_def list_at_def set_len_def
        get_next_def set_next_def node_at_def set_prev_def)
  have n1: "node_at m' pn = Some \<lparr>data = pd, prev = bef, nxt = aft\<rparr>"
    and n2: "node_at m' bef = Some (nb\<lparr>nxt := pn\<rparr>)"
    and n3: "node_at m' aft = Some (na\<lparr>prev := pn\<rparr>)"
    and n4: "\<And>a. a \<noteq> bef \<Longrightarrow> a \<noteq> aft \<Longrightarrow> a \<noteq> pn \<Longrightarrow> node_at m' a = node_at m a"
    using p(1) neq(1-5) by (auto simp: m'_def node_at_def)
  have pl1: "payload m' pn = pd" using n1 by (simp add: payload_def)
  have pl2: "payload m' a = payload m a" if "a \<noteq> pn" for a
  proof -
    consider "a = bef" | "a = aft" | "a \<noteq> bef" "a \<noteq> aft" by blast
    then show ?thesis
      using that n2 n3 n4 [of a] nb(1) na(1) by cases (simp_all add: payload_def)
  qed
  have pl3: "\<forall>a\<in>set as. payload m' a = payload m a"
  proof
    fix a assume "a \<in> set as"
    then have "a \<noteq> pn" using fresh by auto
    then show "payload m' a = payload m a" by (rule pl2)
  qed
  have s1: "dseg m' NULL (head L) xs bef"
    using nb(2) neq by (subst dseg_frame [where m = m]) (auto intro: n4)
  have s2: "dseg m' aft (nxt na) ys NULL"
    using na(3) neq by (subst dseg_frame [where m = m]) (auto intro: n4)
  have as': "take (unat i) as @ pn # drop (unat i) as = xs @ bef # pn # aft # ys"
    using lx i unfolding as by simp
  have seg': "dseg m' NULL (head L) (xs @ bef # pn # aft # ys) NULL"
    using s1 s2 n1 n2 n3 nb(3,4) na(2) by (simp add: dseg_append)
  have pm: "map (payload m') as = map (payload m) as"
    using pl3 by simp
  have la: "list_at m' l = Some (L\<lparr>len := len L + 1\<rparr>)"
    using l0 by (simp add: m'_def list_at_def)
  have bf: "bufs m' = (bufs m)(pd \<mapsto> take (unat n) bs)"
    by (simp add: m'_def)
  have sets: "set (xs @ bef # pn # aft # ys) = insert pn (set as)"
    unfolding as by auto
  have "llist_inv m' l (xs @ bef # pn # aft # ys)"
  proof (rule llist_invI [OF la])
    show "dseg m' NULL (head (L\<lparr>len := len L + 1\<rparr>)) (xs @ bef # pn # aft # ys) NULL"
      using seg' by simp
    show "unat (len (L\<lparr>len := len L + 1\<rparr>)) = length (xs @ bef # pn # aft # ys)"
      using un' unfolding as by simp
    show "distinct (xs @ bef # pn # aft # ys)" using dist fresh unfolding as by auto
    have pmx: "map (payload m') xs = map (payload m) xs"
      and pmy: "map (payload m') ys = map (payload m) ys"
      and pb: "payload m' bef = payload m bef" "payload m' aft = payload m aft"
      using pl3 unfolding as by auto
    show "distinct (map (payload m') (xs @ bef # pn # aft # ys))"
      using pdist pdfresh unfolding as by (simp add: pmx pmy pb pl1) blast
    show "payload m' a \<noteq> NULL \<and> bufs m' (payload m' a) \<noteq> None"
      if "a \<in> set (xs @ bef # pn # aft # ys)" for a
      using that plive pl1 pl2 [of a] bf p fresh unfolding sets by (cases "a = pn") auto
    show "tail (L\<lparr>len := len L + 1\<rparr>) =
        (if xs @ bef # pn # aft # ys = [] then NULL else last (xs @ bef # pn # aft # ys))"
      using tl unfolding as by simp
  qed
  then show ?thesis using r pl1 pl3 bf unfolding as' by (intro exI [of _ m']) simp
qed

lemma llist_inv_delI:
  assumes la: "list_at m' l = Some L'"
    and seg: "dseg m' NULL (head L') (xs @ ys) NULL"
    and tl: "tail L' = (if xs @ ys = [] then NULL else last (xs @ ys))"
    and un: "unat (len L') = length (xs @ ys)"
    and dist: "distinct (xs @ x # ys)"
    and pdist: "distinct (map (payload m) (xs @ x # ys))"
    and plive: "\<forall>a\<in>set (xs @ x # ys). payload m a \<noteq> NULL \<and> bufs m (payload m a) \<noteq> None"
    and pl: "\<And>a. a \<in> set (xs @ ys) \<Longrightarrow> payload m' a = payload m a"
    and bf: "bufs m' = bufs m"
  shows "llist_inv m' l (xs @ ys)"
proof (rule llist_invI [OF la seg tl un])
  show "distinct (xs @ ys)" using dist by auto
  have pm: "map (payload m') (xs @ ys) = map (payload m) (xs @ ys)"
    by (intro map_cong refl pl)
  show "distinct (map (payload m') (xs @ ys))"
    unfolding pm using pdist by auto
  show "payload m' a \<noteq> NULL \<and> bufs m' (payload m' a) \<noteq> None" if "a \<in> set (xs @ ys)" for a
    using plive that pl [OF that] bf by auto
qed

lemma lnode_free_live:
  assumes "node_at m x = Some nd"
  shows "lnode_free x m = Some (data nd, m\<lparr>nodes := (nodes m)(x := None)\<rparr>)"
  using assms node_at_nonnull [OF assms]
  by (simp add: lnode_free_def get_data_def set_prev_def set_next_def set_data_def free_node_def
      node_at_def)

lemma llist_del_inv:
  assumes inv: "llist_inv m l as" and ne: "as \<noteq> []"
    and k: "k = min (unat i) (length as - 1)"
  shows "\<exists>m'. llist_del l i m = Some (payload m (as ! k), m') \<and>
           llist_inv m' l (take k as @ drop (Suc k) as) \<and>
           bufs m' = bufs m \<and>
           (\<forall>a\<in>set as. a \<noteq> as ! k \<longrightarrow> payload m' a = payload m a)"
proof -
  from inv obtain L where L: "list_at m l = Some L"
    and seg: "dseg m NULL (head L) as NULL"
    and tl: "tail L = (if as = [] then NULL else last as)"
    and un: "unat (len L) = length as"
    and dist: "distinct as"
    and pdist: "distinct (map (payload m) as)"
    and plive: "\<forall>a\<in>set as. payload m a \<noteq> NULL \<and> bufs m (payload m a) \<noteq> None"
    unfolding llist_inv_seg by blast
  note l0 = list_at_nonnull [OF L]
  have nn: "NULL \<notin> set as" using seg by (rule dseg_nonnull)
  have kl: "k < length as" using ne k by (cases as) (auto simp: min_def)
  define x where "x = as ! k"
  define xs where "xs = take k as"
  define ys where "ys = drop (Suc k) as"
  have as: "as = xs @ x # ys"
    unfolding x_def xs_def ys_def using kl by (rule id_take_nth_drop)
  have lx: "length xs = k" unfolding xs_def using kl by simp
  have g: "lnode_get l i m = Some x"
    using lnode_get_inv [OF inv, of i] ne k by (simp add: x_def)
  have x0: "x \<noteq> NULL" using nn as by auto
  from seg obtain nx where nx: "node_at m x = Some nx" "dseg m NULL (head L) xs x"
      "prev nx = (if xs = [] then NULL else last xs)" "dseg m x (nxt nx) ys NULL"
    unfolding as by (auto simp: dseg_append dest: dseg_start)
  have px: "payload m x = data nx" using nx(1) by (simp add: payload_def)
  have c0: "len L \<noteq> 0" using un ne by auto
  have un1: "unat (len L - 1) = length as - 1"
    using c0 un by (simp add: unat_minus_one)
  have c1: "len L = 1 \<longleftrightarrow> length as = 1"
    using un by (simp add: word_unat_eq_iff)
  note defs = llist_del_def get_len_def list_at_def set_head_def set_tail_def set_len_def
    get_head_def get_tail_def get_next_def get_prev_def set_next_def set_prev_def
    lnode_free_def get_data_def set_data_def free_node_def node_at_def
  have sub: "take k as @ drop (Suc k) as = xs @ ys"
    by (simp add: xs_def ys_def)
  have xk: "as ! k = x" by (simp add: x_def)
  have main: "\<exists>m' L'. llist_del l i m = Some (data nx, m') \<and> list_at m' l = Some L' \<and>
      dseg m' NULL (head L') (xs @ ys) NULL \<and>
      tail L' = (if xs @ ys = [] then NULL else last (xs @ ys)) \<and>
      len L' = len L - 1 \<and> bufs m' = bufs m \<and>
      (\<forall>a. a \<noteq> x \<longrightarrow> payload m' a = payload m a)"
  proof (cases "ys = []")
    case yE: True
    show ?thesis
    proof (cases "xs = []")
      case xE: True
      then have a1: "as = [x]" and k0: "k = 0" using yE as lx by auto
      then have hx: "head L = x" using nx(2) xE by simp
      show ?thesis
        using L g x0 l0 c1 a1 k0 nx(1) xE yE
        by (simp add: defs payload_def)
    next
      case xN: False
      then obtain xs' p where xs: "xs = xs' @ [p]" by (cases xs rule: rev_cases) auto
      from nx(2) obtain np where np: "node_at m p = Some np" "dseg m NULL (head L) xs' p"
          "prev np = (if xs' = [] then NULL else last xs')" "nxt np = x"
        unfolding xs by (auto simp: dseg_append dest: dseg_start)
      have pp: "prev nx = p" using nx(3) xs by simp
      have tx: "tail L = x" using tl as yE by simp
      have neq: "p \<noteq> x" "p \<noteq> NULL" "p \<notin> set xs'" "x \<notin> set xs'"
        using dist nn unfolding as xs by auto
      have kk: "k = length as - 1" "1 < length as" using lx as xs yE by auto
      then have i0: "i \<noteq> 0" "len L - 1 \<le> i" "len L \<noteq> 1"
        using k un un1 c1 by (auto simp: word_le_nat_alt min_def split: if_splits)
      have "\<exists>m'. llist_del l i m = Some (data nx, m') \<and>
          list_at m' l = Some (L\<lparr>tail := p, len := len L - 1\<rparr>) \<and> bufs m' = bufs m \<and>
          node_at m' p = Some (np\<lparr>nxt := NULL\<rparr>) \<and>
          (\<forall>a. a \<noteq> p \<longrightarrow> a \<noteq> x \<longrightarrow> node_at m' a = node_at m a)"
        using L g x0 l0 i0 nx(1) np(1) pp tx neq(1,2)
        by (simp add: defs)
      then obtain m' where r: "llist_del l i m = Some (data nx, m')"
        and la: "list_at m' l = Some (L\<lparr>tail := p, len := len L - 1\<rparr>)"
        and bf: "bufs m' = bufs m"
        and n1: "node_at m' p = Some (np\<lparr>nxt := NULL\<rparr>)"
        and n2: "\<And>a. a \<noteq> p \<Longrightarrow> a \<noteq> x \<Longrightarrow> node_at m' a = node_at m a"
        by blast
      have "dseg m' NULL (head L) xs' p"
        using np(2) neq by (subst dseg_frame [where m = m]) (auto intro: n2)
      then have seg': "dseg m' NULL (head L) (xs @ ys) NULL"
        using n1 np(3) unfolding xs yE by (simp add: dseg_append)
      have pl: "payload m' a = payload m a" if "a \<noteq> x" for a
        using that n1 n2 [of a] np(1) by (cases "a = p") (simp_all add: payload_def)
      show ?thesis
        using r la bf seg' pl unfolding xs yE
        by (intro exI [of _ m'] exI [of _ "L\<lparr>tail := p, len := len L - 1\<rparr>"]) simp
    qed
  next
    case yN: False
    then obtain b ys' where ys: "ys = b # ys'" by (cases ys) auto
    from nx(4) obtain nb where nb: "node_at m b = Some nb" "nxt nx = b" "prev nb = x"
        "dseg m b (nxt nb) ys' NULL"
      unfolding ys by auto
    have neqb: "b \<noteq> x" "b \<noteq> NULL" "b \<notin> set ys'" "x \<notin> set ys'" "b \<notin> set xs"
      using dist nn unfolding as ys by auto
    have k2: "k < length as - 1" using lx as ys by auto
    then have ik: "unat i = k" using k by (auto simp: min_def split: if_splits)
    have i1: "\<not> len L - 1 \<le> i" "len L \<noteq> 1"
      using k2 ik un1 c1 by (auto simp: word_le_nat_alt)
    have s2: "dseg m' b (nxt nb) ys' NULL"
      if "\<And>a. a \<noteq> b \<Longrightarrow> a \<noteq> x \<Longrightarrow> a \<in> set ys' \<Longrightarrow> node_at m' a = node_at m a" for m'
      using nb(4) neqb by (subst dseg_frame [where m = m]) (auto intro: that)
    have tl2: "tail L = last (b # ys')" using tl as ys by simp
    show ?thesis
    proof (cases "xs = []")
      case xE: True
      then have hx: "head L = x" and k0: "k = 0" using nx(2) lx by auto
      then have i0: "i = 0" using ik by (simp add: unat_eq_zero)
      have "\<exists>m'. llist_del l i m = Some (data nx, m') \<and>
          list_at m' l = Some (L\<lparr>head := b, len := len L - 1\<rparr>) \<and> bufs m' = bufs m \<and>
          node_at m' b = Some (nb\<lparr>prev := NULL\<rparr>) \<and>
          (\<forall>a. a \<noteq> b \<longrightarrow> a \<noteq> x \<longrightarrow> node_at m' a = node_at m a)"
        using L g x0 l0 i0 i1 nx(1) nb(1,2) hx neqb(1,2)
        by (simp add: defs)
      then obtain m' where r: "llist_del l i m = Some (data nx, m')"
        and la: "list_at m' l = Some (L\<lparr>head := b, len := len L - 1\<rparr>)"
        and bf: "bufs m' = bufs m"
        and n1: "node_at m' b = Some (nb\<lparr>prev := NULL\<rparr>)"
        and n2: "\<And>a. a \<noteq> b \<Longrightarrow> a \<noteq> x \<Longrightarrow> node_at m' a = node_at m a"
        by blast
      have seg': "dseg m' NULL b (xs @ ys) NULL"
        using s2 [of m'] n1 n2 unfolding xE ys by simp
      have pl: "payload m' a = payload m a" if "a \<noteq> x" for a
        using that n1 n2 [of a] nb(1) by (cases "a = b") (simp_all add: payload_def)
      show ?thesis
        using r la bf seg' pl tl2 unfolding xE ys
        by (intro exI [of _ m'] exI [of _ "L\<lparr>head := b, len := len L - 1\<rparr>"]) simp
    next
      case xN: False
      then obtain xs' p where xs: "xs = xs' @ [p]" by (cases xs rule: rev_cases) auto
      from nx(2) obtain np where np: "node_at m p = Some np" "dseg m NULL (head L) xs' p"
          "prev np = (if xs' = [] then NULL else last xs')" "nxt np = x"
        unfolding xs by (auto simp: dseg_append dest: dseg_start)
      have pp: "prev nx = p" using nx(3) xs by simp
      have neq: "p \<noteq> x" "p \<noteq> NULL" "p \<notin> set xs'" "x \<notin> set xs'" "p \<noteq> b" "b \<notin> set xs'"
         "p \<notin> set ys'"
        using dist nn unfolding as xs ys by auto
      have i0: "i \<noteq> 0" using ik lx xs by (auto simp: unat_eq_zero)
      have "\<exists>m'. llist_del l i m = Some (data nx, m') \<and>
          list_at m' l = Some (L\<lparr>len := len L - 1\<rparr>) \<and> bufs m' = bufs m \<and>
          node_at m' p = Some (np\<lparr>nxt := b\<rparr>) \<and>
          node_at m' b = Some (nb\<lparr>prev := p\<rparr>) \<and>
          (\<forall>a. a \<noteq> p \<longrightarrow> a \<noteq> b \<longrightarrow> a \<noteq> x \<longrightarrow> node_at m' a = node_at m a)"
        using L g x0 l0 i0 i1 nx(1) nb(1,2) np(1) pp neq(1,2,5) neqb(1,2)
        by (simp add: defs)
      then obtain m' where r: "llist_del l i m = Some (data nx, m')"
        and la: "list_at m' l = Some (L\<lparr>len := len L - 1\<rparr>)"
        and bf: "bufs m' = bufs m"
        and n0: "node_at m' p = Some (np\<lparr>nxt := b\<rparr>)"
        and n1: "node_at m' b = Some (nb\<lparr>prev := p\<rparr>)"
        and n2: "\<And>a. a \<noteq> p \<Longrightarrow> a \<noteq> b \<Longrightarrow> a \<noteq> x \<Longrightarrow> node_at m' a = node_at m a"
        by blast
      have s1: "dseg m' NULL (head L) xs' p"
        using np(2) neq by (subst dseg_frame [where m = m]) (auto intro: n2)
      have s2': "dseg m' b (nxt nb) ys' NULL"
        using neq by (intro s2 n2) auto
      have seg': "dseg m' NULL (head L) (xs @ ys) NULL"
        using s1 s2' n0 n1 np(3) unfolding xs ys by (simp add: dseg_append)
      have pl: "payload m' a = payload m a" if "a \<noteq> x" for a
      proof -
        consider "a = p" | "a = b" | "a \<noteq> p" "a \<noteq> b" by blast
        then show ?thesis
          using that n0 n1 n2 [of a] np(1) nb(1) by cases (simp_all add: payload_def)
      qed
      show ?thesis
        using r la bf seg' pl tl2 unfolding xs ys
        by (intro exI [of _ m'] exI [of _ "L\<lparr>len := len L - 1\<rparr>"]) simp
    qed
  qed
  then obtain m' L' where r: "llist_del l i m = Some (data nx, m')"
    and la: "list_at m' l = Some L'"
    and seg': "dseg m' NULL (head L') (xs @ ys) NULL"
    and tl': "tail L' = (if xs @ ys = [] then NULL else last (xs @ ys))"
    and len': "len L' = len L - 1" and bf: "bufs m' = bufs m"
    and pl: "\<forall>a. a \<noteq> x \<longrightarrow> payload m' a = payload m a"
    by blast
  have "llist_inv m' l (xs @ ys)"
  proof (rule llist_inv_delI [OF la seg' tl' _ _ _ _ _ bf, where x = x])
    show "unat (len L') = length (xs @ ys)" using un1 len' as by simp
    show "distinct (xs @ x # ys)" using dist as by simp
    show "distinct (map (payload m) (xs @ x # ys))" using pdist as by simp
    show "\<forall>a\<in>set (xs @ x # ys). payload m a \<noteq> NULL \<and> bufs m (payload m a) \<noteq> None"
      using plive as by simp
    show "payload m' a = payload m a" if "a \<in> set (xs @ ys)" for a
    proof -
      have "a \<noteq> x" using that dist unfolding as by auto
      then show ?thesis using pl by simp
    qed
  qed
  moreover have "\<forall>a\<in>set as. a \<noteq> as ! k \<longrightarrow> payload m' a = payload m a"
    using pl xk by simp
  ultimately show ?thesis
    using r bf px unfolding sub xk by (intro exI [of _ m']) simp
qed

lemma lnode_free_whole_live:
  assumes "node_at m a = Some nd" "data nd \<noteq> NULL" "bufs m (data nd) \<noteq> None"
  shows "lnode_free_whole a m =
           Some (m\<lparr>bufs := (bufs m)(data nd := None), nodes := (nodes m)(a := None)\<rparr>)"
  using assms node_at_nonnull [OF assms(1)]
  by (simp add: lnode_free_whole_def get_data_def free_buf_def set_prev_def set_next_def
      set_data_def free_node_def node_at_def)

lemma clear_loop_chain:
  assumes "dseg m pv p as NULL" "distinct as" "distinct (map (payload m) as)"
    and "\<forall>a\<in>set as. payload m a \<noteq> NULL \<and> bufs m (payload m a) \<noteq> None"
  shows "\<exists>m'. clear_loop p m = Some m' \<and> lists m' = lists m \<and>
           nodes m' = (\<lambda>a. if a \<in> set as then None else nodes m a) \<and>
           bufs m' = (\<lambda>q. if q \<in> payload m ` set as then None else bufs m q)"
  using assms
proof (induction as arbitrary: m pv p)
  case Nil
  then show ?case by (simp add: clear_loop.simps)
next
  case (Cons a as)
  from Cons.prems(1) obtain nd where nd: "p = a" "node_at m a = Some nd" "prev nd = pv"
      "dseg m a (nxt nd) as NULL"
    by auto
  have a0: "a \<noteq> NULL" using nd(2) by (rule node_at_nonnull)
  have pa: "payload m a = data nd" using nd(2) by (simp add: payload_def)
  then have live: "data nd \<noteq> NULL" "bufs m (data nd) \<noteq> None"
    using Cons.prems(4) by auto
  define m1 where "m1 = m\<lparr>bufs := (bufs m)(data nd := None), nodes := (nodes m)(a := None)\<rparr>"
  have f: "lnode_free_whole a m = Some m1"
    unfolding m1_def using nd(2) live by (rule lnode_free_whole_live)
  have na: "node_at m1 b = node_at m b" if "b \<in> set as" for b
    using that Cons.prems(2) by (auto simp: m1_def node_at_def)
  have pb: "payload m1 b = payload m b" if "b \<in> set as" for b
    using na [OF that] by (simp add: payload_def)
  have pm: "map (payload m1) as = map (payload m) as"
    by (intro map_cong refl pb)
  have s: "dseg m1 a (nxt nd) as NULL"
    using nd(4) by (subst dseg_frame [where m = m]) (auto intro: na)
  have "\<exists>m'. clear_loop (nxt nd) m1 = Some m' \<and> lists m' = lists m1 \<and>
           nodes m' = (\<lambda>a. if a \<in> set as then None else nodes m1 a) \<and>
           bufs m' = (\<lambda>q. if q \<in> payload m1 ` set as then None else bufs m1 q)"
  proof (rule Cons.IH [OF s])
    show "distinct as" using Cons.prems(2) by simp
    show "distinct (map (payload m1) as)" unfolding pm using Cons.prems(3) by simp
    show "\<forall>b\<in>set as. payload m1 b \<noteq> NULL \<and> bufs m1 (payload m1 b) \<noteq> None"
    proof
      fix b assume b: "b \<in> set as"
      then have "payload m b \<in> payload m ` set as" by (rule imageI)
      moreover have "data nd \<notin> payload m ` set as" using Cons.prems(3) pa by simp
      ultimately have "payload m b \<noteq> data nd" by metis
      moreover have "bufs m1 q = (if q = data nd then None else bufs m q)" for q
        by (simp add: m1_def)
      ultimately show "payload m1 b \<noteq> NULL \<and> bufs m1 (payload m1 b) \<noteq> None"
        using Cons.prems(4) b by (simp add: pb)
    qed
  qed
  then obtain m' where m': "clear_loop (nxt nd) m1 = Some m'" "lists m' = lists m1"
     "nodes m' = (\<lambda>a. if a \<in> set as then None else nodes m1 a)"
     "bufs m' = (\<lambda>q. if q \<in> payload m1 ` set as then None else bufs m1 q)"
    by blast
  have img: "payload m1 ` set as = payload m ` set as"
    using pb by (auto simp: image_iff)
  have "clear_loop p m = Some m'"
    using nd(1,2) a0 f m'(1) by (subst clear_loop.simps) (simp add: get_next_def)
  moreover have "lists m' = lists m" using m'(2) by (simp add: m1_def)
  moreover have "nodes m' = (\<lambda>b. if b \<in> set (a # as) then None else nodes m b)"
    unfolding m'(3) by (auto simp: m1_def)
  moreover have "bufs m' = (\<lambda>q. if q \<in> payload m ` set (a # as) then None else bufs m q)"
    unfolding m'(4) img by (auto simp: m1_def pa)
  ultimately show ?case by blast
qed

lemma llist_clear_inv:
  assumes inv: "llist_inv m l as"
  shows "\<exists>m'. llist_clear l m = Some m' \<and> llist_inv m' l [] \<and> (as = [] \<longrightarrow> m' = m) \<and>
           nodes m' = (\<lambda>a. if a \<in> set as then None else nodes m a) \<and>
           bufs m' = (\<lambda>q. if q \<in> payload m ` set as then None else bufs m q)"
proof -
  from inv obtain L where L: "list_at m l = Some L"
    and seg: "dseg m NULL (head L) as NULL"
    and tl: "tail L = (if as = [] then NULL else last as)"
    and un: "unat (len L) = length as"
    and dist: "distinct as"
    and pdist: "distinct (map (payload m) as)"
    and plive: "\<forall>a\<in>set as. payload m a \<noteq> NULL \<and> bufs m (payload m a) \<noteq> None"
    unfolding llist_inv_seg by blast
  note l0 = list_at_nonnull [OF L]
  show ?thesis
  proof (cases "as = []")
    case True
    then have "len L = 0" using un by (simp add: unat_eq_zero)
    then have "llist_clear l m = Some m"
      using L l0 by (simp add: llist_clear_def llist_empty_def get_len_def)
    then show ?thesis using inv True by auto
  next
    case False
    then have c0: "len L \<noteq> 0" using un by auto
    from clear_loop_chain [OF seg dist pdist plive]
    obtain m1 where m1: "clear_loop (head L) m = Some m1" "lists m1 = lists m"
      "nodes m1 = (\<lambda>a. if a \<in> set as then None else nodes m a)"
      "bufs m1 = (\<lambda>q. if q \<in> payload m ` set as then None else bufs m q)"
      by blast
    have "\<exists>m'. llist_clear l m = Some m' \<and>
            list_at m' l = Some (L\<lparr>head := NULL, tail := NULL, len := 0\<rparr>) \<and>
            nodes m' = nodes m1 \<and> bufs m' = bufs m1"
      using L l0 c0 m1(1,2)
      by (simp add: llist_clear_def llist_empty_def get_len_def get_head_def list_at_def
          set_len_def set_head_def set_tail_def)
    then obtain m' where m': "llist_clear l m = Some m'"
      "list_at m' l = Some (L\<lparr>head := NULL, tail := NULL, len := 0\<rparr>)"
      "nodes m' = nodes m1" "bufs m' = bufs m1"
      by blast
    have "llist_inv m' l []"
      by (rule llist_invI [OF m'(2)]) simp_all
    then show ?thesis using m' m1(3,4) False by auto
  qed
qed

lemma llist_inv_list_at: "llist_inv m l as \<Longrightarrow> \<exists>L. list_at m l = Some L \<and> unat (len L) = length as"
  by (auto simp: llist_inv_seg)

lemma llist_init_inv:
  assumes "list_at m l = Some L"
  shows "\<exists>m'. llist_init l m = Some (LLIST_OK, m') \<and> llist_inv m' l [] \<and>
           nodes m' = nodes m \<and> bufs m' = bufs m"
proof -
  note l0 = list_at_nonnull [OF assms]
  have "\<exists>m'. llist_init l m = Some (LLIST_OK, m') \<and>
          list_at m' l = Some (L\<lparr>head := NULL, tail := NULL, len := 0\<rparr>) \<and>
          nodes m' = nodes m \<and> bufs m' = bufs m"
    using assms l0 by (simp add: llist_init_def set_head_def set_tail_def set_len_def list_at_def)
  then obtain m' where m': "llist_init l m = Some (LLIST_OK, m')"
     "list_at m' l = Some (L\<lparr>head := NULL, tail := NULL, len := 0\<rparr>)"
     "nodes m' = nodes m" "bufs m' = bufs m"
    by blast
  have "llist_inv m' l []"
    by (rule llist_invI [OF m'(2)]) simp_all
  then show ?thesis using m' by blast
qed

lemma llist_ins_eq_add:
  assumes "list_at m l = Some L" "len L = 0 \<or> len L \<le> i"
  shows "llist_ins l d n i pn pd m = llist_add l d n pn pd m"
  using assms by (auto simp: llist_ins_def llist_add_def get_len_def)

lemma llist_del_empty:
  assumes "llist_inv m l []"
  shows "llist_del l i m = Some (NULL, m)"
  using lnode_get_inv [OF assms, of i] by (simp add: llist_del_def lnode_free_def)

lemma llist_add_pre_inv:
  assumes inv: "llist_inv m l as" and pre: "fresh_node m pn" "fresh_buf m pd" "readable d n"
  shows "\<exists>r m'. llist_add l d n pn pd m = Some (r, m') \<and> llist_inv m' l (model (Add d n pn pd) as)"
proof -
  from inv obtain L where L: "list_at m l = Some L" by (auto dest: llist_inv_list_at)
  note l0 = list_at_nonnull [OF L]
  consider "d = None \<or> n = 0" | bs where "d = Some bs" "n \<noteq> 0" "pn = NULL \<or> pd = NULL"
    | bs where "d = Some bs" "n \<noteq> 0" "pn \<noteq> NULL" "pd \<noteq> NULL"
    by (cases d) auto
  then show ?thesis
  proof cases
    case 1
    then have "llist_add l d n pn pd m = Some (LLIST_NULL_ERR, m)"
      by (auto simp: llist_add_def)
    then show ?thesis using 1 inv by auto
  next
    case 2
    then have "llist_add l d n pn pd m = Some (LLIST_ALLOC_ERR, m)"
      using l0 pre(1) by (simp add: llist_add_alloc_fail)
    then show ?thesis using 2 inv by auto
  next
    case 3
    then have "\<exists>m'. llist_add l (Some bs) n pn pd m = Some (LLIST_OK, m') \<and> llist_inv m' l (as @ [pn]) \<and>
          bufs m' = (bufs m)(pd \<mapsto> take (unat n) bs) \<and> payload m' pn = pd \<and>
          (\<forall>a\<in>set as. payload m' a = payload m a)"
      using pre by (intro llist_add_inv [OF inv]) (auto simp: fresh_node_def fresh_buf_def readable_def)
    then show ?thesis using 3 by auto
  qed
qed

lemma llist_ins_pre_inv:
  assumes inv: "llist_inv m l as" and pre: "fresh_node m pn" "fresh_buf m pd" "readable d n"
  shows "\<exists>r m'. llist_ins l d n i pn pd m = Some (r, m') \<and> llist_inv m' l (model (Ins d n i pn pd) as)"
proof -
  from inv obtain L where L: "list_at m l = Some L" and un: "unat (len L) = length as"
    by (auto dest: llist_inv_list_at)
  note l0 = list_at_nonnull [OF L]
  consider "d = None \<or> n = 0" | bs where "d = Some bs" "n \<noteq> 0" "pn = NULL \<or> pd = NULL"
    | bs where "d = Some bs" "n \<noteq> 0" "pn \<noteq> NULL" "pd \<noteq> NULL"
    by (cases d) auto
  then show ?thesis
  proof cases
    case 1
    then have "llist_ins l d n i pn pd m = Some (LLIST_NULL_ERR, m)"
      by (auto simp: llist_ins_def)
    then show ?thesis using 1 inv by auto
  next
    case 2
    then have "llist_ins l d n i pn pd m = Some (LLIST_ALLOC_ERR, m)"
      using L pre(1) by (simp add: llist_ins_alloc_fail)
    then show ?thesis using 2 inv by auto
  next
    case 3
    have f: "nodes m pn = None" "bufs m pd = None" "unat n \<le> length bs"
      using pre 3 by (auto simp: fresh_node_def fresh_buf_def readable_def)
    consider "length as \<le> unat i" | "unat i < length as" "i = 0" | "unat i < length as" "0 < unat i"
      by (meson not_le unat_gt_0)
    then show ?thesis
    proof cases
      case a: 1
      then have "len L \<le> i" using un by (simp add: word_le_nat_alt)
      then have e: "llist_ins l d n i pn pd m = llist_add l d n pn pd m"
        using L by (intro llist_ins_eq_add) auto
      have "model (Ins d n i pn pd) as = model (Add d n pn pd) as"
        using a by simp
      then show ?thesis using llist_add_pre_inv [OF inv pre] e by simp
    next
      case b: 2
      then have ne: "as \<noteq> []" by auto
      from llist_ins_head_inv [OF inv ne 3(2) f(3) 3(3,4) f(1,2)]
      show ?thesis using 3 b by auto
    next
      case c: 3
      from llist_ins_mid_inv [OF inv c(2,1) 3(2) f(3) 3(3,4) f(1,2)]
      show ?thesis using 3 c by auto
    qed
  qed
qed

lemma exec_inv:
  assumes inv: "llist_inv m l as" and pre: "pre m c"
  shows "\<exists>r m'. exec l c m = Some (r, m') \<and> llist_inv m' l (model c as)"
proof (cases c)
  case Init
  from inv obtain L where L: "list_at m l = Some L" by (auto dest: llist_inv_list_at)
  from llist_init_inv [OF L] show ?thesis using Init by auto
next
  case (Get i)
  then show ?thesis using llist_get_inv [OF inv, of i] inv by simp
next
  case (Add d n pn pd)
  then show ?thesis using llist_add_pre_inv [OF inv, of pn pd d n] pre by auto
next
  case (Ins d n i pn pd)
  then show ?thesis using llist_ins_pre_inv [OF inv, of pn pd d n i] pre by auto
next
  case (Del i)
  show ?thesis
  proof (cases "as = []")
    case True
    then show ?thesis using llist_del_empty [of m l i] inv Del by simp
  next
    case False
    from llist_del_inv [OF inv False refl, of i] show ?thesis using Del by (auto simp: Let_def)
  qed
next
  case Clear
  from llist_clear_inv [OF inv] show ?thesis using Clear by auto
qed

lemma llist_inv_ends:
  assumes "llist_inv m l as"
  shows "\<exists>L. list_at m l = Some L \<and> unat (len L) = length as \<and>
           head L = (if as = [] then NULL else hd as) \<and>
           tail L = (if as = [] then NULL else last as) \<and> NULL \<notin> set as \<and> distinct as"
proof -
  from assms obtain L where L: "list_at m l = Some L" "unat (len L) = length as"
    "head L = (if as = [] then NULL else hd as)"
    "tail L = (if as = [] then NULL else last as)" "distinct as"
    unfolding llist_inv_iff by blast
  moreover from assms have "NULL \<notin> set as"
    unfolding llist_inv_seg using dseg_nonnull by blast
  ultimately show ?thesis by blast
qed

lemma llist_inv_empty_consistent:
  assumes "llist_inv m l as"
  shows "empty_consistent m l"
proof -
  from llist_inv_ends [OF assms] obtain L where L: "list_at m l = Some L"
    "unat (len L) = length as" "head L = (if as = [] then NULL else hd as)"
    "tail L = (if as = [] then NULL else last as)" "NULL \<notin> set as"
    by blast
  show ?thesis
  proof (cases "as = []")
    case True
    then show ?thesis using L by (simp add: empty_consistent_def unat_eq_zero)
  next
    case False
    then have "hd as \<in> set as" "last as \<in> set as" "length as \<noteq> 0" by auto
    then have "hd as \<noteq> NULL" "last as \<noteq> NULL" "len L \<noteq> 0" using L(2,5) by (metis, metis, auto)
    then show ?thesis using L False by (simp add: empty_consistent_def)
  qed
qed

subsection \<open>Evaluation on the example memories\<close>

lemmas op_defs = llist_init_def llist_empty_def lnode_new_def lnode_get_def llist_get_def llist_add_def
  llist_ins_def lnode_free_def lnode_free_whole_def llist_del_def llist_clear_def
  node_at_def list_at_def get_data_def get_prev_def get_next_def set_data_def set_prev_def set_next_def
  get_head_def get_tail_def get_len_def set_head_def set_tail_def set_len_def free_node_def free_buf_def
  fresh_node_def fresh_buf_def payload_def llist_inv_def elems_def readable_def empty_consistent_def
  naive_get_def LLIST_OK_def LLIST_NULL_ERR_def LLIST_ALLOC_ERR_def
  walk_next.simps walk_prev.simps clear_loop.simps word_le_nat_alt word_less_nat_alt

lemma inv_mem0: "llist_inv mem0 1 []"
  by (simp add: op_defs mem0_def)

lemma inv_mem1: "llist_inv mem1 1 [16]"
  by (simp add: op_defs mem1_def)

lemma inv_mem2: "llist_inv mem2 1 [16, 48]"
  by (simp add: op_defs mem2_def)

lemma inv_mem3: "llist_inv mem3 1 [16, 48, 80]"
  by (simp add: op_defs mem3_def)

lemma add_mem0: "llist_add 1 (Some [65]) 1 16 32 mem0 = Some (LLIST_OK, mem1)"
  by (simp add: op_defs mem0_def mem1_def)

lemma add_mem1: "llist_add 1 (Some [66]) 1 48 64 mem1 = Some (LLIST_OK, mem2)"
  by (simp add: op_defs mem1_def mem2_def)

lemma add_mem2: "llist_add 1 (Some [67]) 1 80 96 mem2 = Some (LLIST_OK, mem3)"
  by (simp add: op_defs mem2_def mem3_def)

lemma init_mem0: "llist_init 1 mem0 = Some (LLIST_OK, mem0)"
  by (simp add: op_defs mem0_def)

lemma fresh_mems:
  "fresh_node mem0 16" "fresh_buf mem0 32" "fresh_node mem1 48" "fresh_buf mem1 64"
  "fresh_node mem2 80" "fresh_buf mem2 96"
  by (simp_all add: fresh_node_def fresh_buf_def mem0_def mem1_def mem2_def)

lemma add_seq_mem3:
  "add_seq 1 [([65], 1, 16, 32), ([66], 1, 48, 64), ([67], 1, 80, 96)] mem0 = Some mem3"
  by (simp add: add_mem0 add_mem1 add_mem2 fresh_mems)

subsection \<open>Runs, the forward walk and sequences of additions\<close>

text \<open>The chain is determined by the memory: the invariant holds for one list of nodes
  at most.\<close>

lemma dseg_unique: "dseg m pv p as NULL \<Longrightarrow> dseg m pv p bs NULL \<Longrightarrow> as = bs"
proof (induction as arbitrary: pv p bs)
  case Nil
  then show ?case by (cases bs) (auto dest: node_at_nonnull)
next
  case (Cons a as)
  then show ?case by (cases bs) (auto dest: node_at_nonnull)
qed

lemma llist_inv_unique: "llist_inv m l as \<Longrightarrow> llist_inv m l bs \<Longrightarrow> as = bs"
  unfolding llist_inv_seg using dseg_unique by fastforce

lemma run_inv:
  assumes "llist_inv m l as" "run l cs m = Some m'"
  shows "\<exists>as'. llist_inv m' l as'"
  using assms
proof (induction cs arbitrary: m as)
  case Nil
  then show ?case by auto
next
  case (Cons c cs)
  from Cons.prems(2) have p: "pre m c" by (auto split: if_splits)
  from exec_inv [OF Cons.prems(1) p] obtain r m1 where
    e: "exec l c m = Some (r, m1)" and i: "llist_inv m1 l (model c as)" by blast
  from Cons.prems(2) p e have "run l cs m1 = Some m'" by simp
  with i show ?case by (rule Cons.IH)
qed

lemma run_init_inv:
  assumes "list_at m0 l \<noteq> None" "run l (Init # cs) m0 = Some m"
  shows "\<exists>as. llist_inv m l as"
proof -
  from assms(1) obtain L where "list_at m0 l = Some L" by auto
  from llist_init_inv [OF this] obtain m1 where
    m1: "llist_init l m0 = Some (LLIST_OK, m1)" "llist_inv m1 l []" by blast
  then have "run l cs m1 = Some m" using assms(2) by simp
  with m1(2) show ?thesis by (rule run_inv)
qed

lemma llist_inv_single:
  assumes inv: "llist_inv m l as" and L: "list_at m l = Some L"
  shows "(len L = 1 \<longleftrightarrow> head L = tail L \<and> head L \<noteq> NULL) \<and>
         (len L = 1 \<longrightarrow> (\<exists>nd. node_at m (head L) = Some nd \<and> prev nd = NULL \<and> nxt nd = NULL))"
proof -
  from llist_inv_ends [OF inv] L have e: "unat (len L) = length as"
    "head L = (if as = [] then NULL else hd as)"
    "tail L = (if as = [] then NULL else last as)" "NULL \<notin> set as" "distinct as"
    by auto
  have c1: "len L = 1 \<longleftrightarrow> length as = 1"
    using e(1) by (simp add: word_unat_eq_iff)
  have links: "\<forall>k<length as. \<exists>nd. node_at m (as ! k) = Some nd \<and>
           prev nd = (if k = 0 then NULL else as ! (k - 1)) \<and>
           nxt nd = (if Suc k < length as then as ! Suc k else NULL)"
    using inv L unfolding llist_inv_iff by auto
  show ?thesis
  proof (cases "length as = 1")
    case True
    then obtain a where a: "as = [a]" by (cases as) auto
    then have "a \<noteq> NULL" using e(4) by auto
    moreover from links a have "\<exists>nd. node_at m a = Some nd \<and> prev nd = NULL \<and> nxt nd = NULL"
      by simp
    ultimately show ?thesis using c1 True e a by simp
  next
    case False
    have "\<not> (head L = tail L \<and> head L \<noteq> NULL)"
    proof
      assume h: "head L = tail L \<and> head L \<noteq> NULL"
      then have ne: "as \<noteq> []" using e(2) by auto
      then have "hd as = last as" using h e by simp
      then have "as ! 0 = as ! (length as - 1)" using ne by (simp add: hd_conv_nth last_conv_nth)
      then have "0 = length as - 1"
        using e(5) ne by (simp add: nth_eq_iff_index_eq)
      then show False using False ne by (cases as) auto
    qed
    then show ?thesis using c1 False by simp
  qed
qed

lemma llist_add_ok_inv:
  assumes inv: "llist_inv m l as" and f: "fresh_node m pn" "fresh_buf m pd"
    and r: "llist_add l (Some bs) n pn pd m = Some (LLIST_OK, m')"
  shows "llist_inv m' l (as @ [pn]) \<and> bufs m' = (bufs m)(pd \<mapsto> take (unat n) bs) \<and>
         payload m' pn = pd \<and> (\<forall>a\<in>set as. payload m' a = payload m a) \<and> pd \<noteq> NULL"
proof -
  from llist_add_status [OF r] have s: "n \<noteq> 0" "pn \<noteq> NULL" "pd \<noteq> NULL" "unat n \<le> length bs"
    by (auto simp: status_distinct)
  from llist_add_inv [OF inv s(1,4,2,3)] f s r show ?thesis
    by (auto simp: fresh_node_def fresh_buf_def)
qed

lemma walk_fwd_nth:
  assumes "\<forall>k<length as. \<exists>nd. node_at m (as ! k) = Some nd \<and>
             nxt nd = (if Suc k < length as then as ! Suc k else NULL)"
  shows "pos + s < length as \<Longrightarrow> walk_fwd m (as ! pos) s = Some (as ! (pos + s))"
proof (induction s arbitrary: pos)
  case 0
  then show ?case by simp
next
  case (Suc s)
  have "pos < length as" and "Suc pos < length as" using Suc.prems by auto
  then have nx: "get_next (as ! pos) m = Some (as ! Suc pos)"
    using assms [rule_format, of pos] by (auto simp: get_next_def)
  have "walk_fwd m (as ! Suc pos) s = Some (as ! (Suc pos + s))"
    using Suc.prems by (intro Suc.IH) auto
  then show ?case using nx by simp
qed

lemma naive_get_inv:
  assumes inv: "llist_inv m l as" and ne: "as \<noteq> []"
  shows "naive_get l i m = Some (as ! min (unat i) (length as - 1))"
proof -
  from inv obtain L where L: "list_at m l = Some L" and un: "unat (len L) = length as"
    and hd: "head L = (if as = [] then NULL else hd as)"
    and links: "\<forall>k<length as. \<exists>nd. node_at m (as ! k) = Some nd \<and>
           prev nd = (if k = 0 then NULL else as ! (k - 1)) \<and>
           nxt nd = (if Suc k < length as then as ! Suc k else NULL)"
    unfolding llist_inv_iff by blast
  have ln: "\<forall>k<length as. \<exists>nd. node_at m (as ! k) = Some nd \<and>
           nxt nd = (if Suc k < length as then as ! Suc k else NULL)"
    using links by blast
  have n0: "len L \<noteq> 0" using un ne by auto
  define c where "c = (if i \<ge> len L then len L - 1 else i)"
  have uc: "unat c = min (unat i) (length as - 1)"
    using n0 un unfolding c_def by unat_arith
  then have "unat c < length as" using ne by (cases as) auto
  then have "walk_fwd m (as ! 0) (unat c) = Some (as ! (0 + unat c))"
    by (intro walk_fwd_nth [OF ln]) simp
  then show ?thesis
    using L hd ne uc by (simp add: naive_get_def get_len_def get_head_def c_def hd_conv_nth)
qed

lemma llist_init_ok:
  assumes "llist_init l m0 = Some (LLIST_OK, m1)"
  shows "llist_inv m1 l []"
proof -
  from assms have "list_at m0 l \<noteq> None"
    by (auto simp: llist_init_def set_head_def status_distinct split: if_splits bind_splits)
  then obtain L where "list_at m0 l = Some L" by auto
  from llist_init_inv [OF this] assms show ?thesis by auto
qed

lemma elems_snoc:
  assumes inv: "llist_inv m l as" and f: "fresh_buf m pd" "pd \<noteq> NULL"
    and b: "bufs m' = (bufs m)(pd \<mapsto> v)" and p: "payload m' pn = pd"
      "\<forall>a\<in>set as. payload m' a = payload m a"
  shows "elems m' (as @ [pn]) = elems m as @ [Some v]"
proof -
  have "bufs m' (payload m' a) = bufs m (payload m a)" if "a \<in> set as" for a
  proof -
    from inv that have "bufs m (payload m a) \<noteq> None" unfolding llist_inv_seg by auto
    then have "payload m a \<noteq> pd" using f by (auto simp: fresh_buf_def)
    then show ?thesis using p(2) that b by simp
  qed
  then have "map (\<lambda>a. bufs m' (payload m' a)) as = map (\<lambda>a. bufs m (payload m a)) as"
    by (intro map_cong refl)
  then show ?thesis using b p(1) by (simp add: elems_def)
qed

lemma add_seq_inv:
  assumes "llist_inv m l as" "add_seq l xs m = Some m'"
  shows "llist_inv m' l (as @ map (\<lambda>(d, n, pn, pd). pn) xs) \<and>
         elems m' (as @ map (\<lambda>(d, n, pn, pd). pn) xs) =
           elems m as @ map (\<lambda>(d, n, pn, pd). Some (take (unat n) d)) xs"
  using assms
proof (induction xs arbitrary: m as)
  case Nil
  then show ?case by simp
next
  case (Cons x xs)
  obtain d n pn pd where x: "x = (d, n, pn, pd)" by (cases x) auto
  from Cons.prems(2) obtain m1 where f: "fresh_node m pn" "fresh_buf m pd"
    and r: "llist_add l (Some d) n pn pd m = Some (LLIST_OK, m1)"
    and s: "add_seq l xs m1 = Some m'"
    unfolding x by (auto split: if_splits option.splits)
  from llist_add_ok_inv [OF Cons.prems(1) f r] have a: "llist_inv m1 l (as @ [pn])"
    "bufs m1 = (bufs m)(pd \<mapsto> take (unat n) d)" "payload m1 pn = pd"
    "\<forall>a\<in>set as. payload m1 a = payload m a" "pd \<noteq> NULL"
    by auto
  have e: "elems m1 (as @ [pn]) = elems m as @ [Some (take (unat n) d)]"
    using Cons.prems(1) f(2) a(5,2,3,4) by (rule elems_snoc)
  from Cons.IH [OF a(1) s] show ?case unfolding x e by simp
qed

section \<open>The claims\<close>

text \<open>
  C1. Round trip of the copied payload. Take a header initialised by \<^verbatim>\<open>llist_init\<close> and
  any sequence \<open>xs\<close> of calls of \<^verbatim>\<open>llist_add\<close> that all return \<open>LLIST_OK\<close>, the allocator
  returning fresh storage each time. Then for every index \<open>i\<close> below the number of calls,
  \<^verbatim>\<open>llist_get\<close> returns a pointer that is not \<open>NULL\<close> and refers to exactly the bytes that
  the \<open>i\<close>-th call was given (the first \<open>n\<close> bytes at its data pointer), and \<^verbatim>\<open>len\<close> is
  the number of calls.
\<close>

theorem get_after_adds_returns_supplied_bytes:
  assumes "llist_init l m0 = Some (LLIST_OK, m1)" and "add_seq l xs m1 = Some m"
    and "unat i < length xs"
  shows "\<exists>p c. llist_get l i m = Some p \<and> p \<noteq> NULL \<and>
           bufs m p = Some (take (unat (fst (snd (xs ! unat i)))) (fst (xs ! unat i))) \<and>
           get_len l m = Some c \<and> unat c = length xs"
proof -
  let ?as = "map (\<lambda>(d, n, pn, pd). pn) xs"
  from llist_init_ok [OF assms(1)] have i0: "llist_inv m1 l []" .
  from add_seq_inv [OF i0 assms(2)] have inv: "llist_inv m l ?as"
    and el: "elems m ?as = map (\<lambda>(d, n, pn, pd). Some (take (unat n) d)) xs"
    by (simp_all add: elems_def)
  have ne: "?as \<noteq> []" and k: "min (unat i) (length ?as - 1) = unat i" and lt: "unat i < length ?as"
    using assms(3) by auto
  have g: "llist_get l i m = Some (payload m (?as ! unat i))"
    using llist_get_inv [OF inv, of i] ne k by simp
  have "?as ! unat i \<in> set ?as" using lt by (rule nth_mem)
  then have nz: "payload m (?as ! unat i) \<noteq> NULL"
    using inv unfolding llist_inv_seg by blast
  have "elems m ?as ! unat i = bufs m (payload m (?as ! unat i))"
    using lt by (simp add: elems_def)
  moreover have "map (\<lambda>(d, n, pn, pd). Some (take (unat n) d)) xs ! unat i =
      Some (take (unat (fst (snd (xs ! unat i)))) (fst (xs ! unat i)))"
    using assms(3) by (simp add: case_prod_beta)
  ultimately have b: "bufs m (payload m (?as ! unat i)) =
      Some (take (unat (fst (snd (xs ! unat i)))) (fst (xs ! unat i)))"
    using el by simp
  from llist_inv_list_at [OF inv] obtain c where "get_len l m = Some c" "unat c = length xs"
    by (auto simp: get_len_def)
  then show ?thesis using g nz b by blast
qed

theorem get_after_adds_returns_supplied_bytes_witness:
  "llist_init 1 mem0 = Some (LLIST_OK, mem0) \<and>
   add_seq 1 [([65], 1, 16, 32), ([66], 1, 48, 64), ([67], 1, 80, 96)] mem0 = Some mem3 \<and>
   llist_get 1 1 mem3 = Some 64 \<and> bufs mem3 64 = Some [66] \<and> get_len 1 mem3 = Some 3"
proof -
  have h: "unat (1 :: size_t) < length [([65 :: byte], 1 :: size_t, 16 :: ptr, 32 :: ptr), ([66], 1, 48, 64), ([67], 1, 80, 96)]"
    by simp
  have e: "llist_get 1 1 mem3 = Some 64" "get_len 1 mem3 = Some 3"
    by (simp_all add: op_defs mem3_def)
  from get_after_adds_returns_supplied_bytes [OF init_mem0 add_seq_mem3 h] e init_mem0 add_seq_mem3
  show ?thesis by simp
qed

text \<open>
  C2. On a list that is not empty, an index \<open>i\<close> that is not below the length is clamped
  to the last position: \<^verbatim>\<open>llist_get\<close> returns the payload of the tail node, and
  \<^verbatim>\<open>llist_del\<close> returns that same payload, leaves the chain without its former last node
  and the length smaller by exactly one (without wrapping). Neither result is \<open>NULL\<close>,
  neither call meets undefined behaviour, and the payload buffers are untouched.
\<close>

theorem out_of_range_index_selects_last:
  assumes "llist_inv m l as" and "as \<noteq> []" and "length as \<le> unat i"
  shows "get_tail l m = Some (last as) \<and> payload m (last as) \<noteq> NULL \<and>
         llist_get l i m = Some (payload m (last as)) \<and>
         (\<exists>c m'. get_len l m = Some c \<and>
            llist_del l i m = Some (payload m (last as), m') \<and>
            llist_inv m' l (butlast as) \<and>
            get_len l m' = Some (c - 1) \<and> unat (c - 1) = unat c - 1 \<and> unat c = length as \<and>
            bufs m' = bufs m)"
proof -
  have k: "length as - 1 = min (unat i) (length as - 1)" using assms(3) by simp
  have la: "as ! (length as - 1) = last as" using assms(2) by (simp add: last_conv_nth)
  from llist_inv_ends [OF assms(1)] obtain L where L: "list_at m l = Some L"
    "unat (len L) = length as" "tail L = last as"
    using assms(2) by auto
  have pl: "payload m (last as) \<noteq> NULL"
    using assms(1,2) unfolding llist_inv_seg by auto
  have g: "llist_get l i m = Some (payload m (last as))"
    using llist_get_inv [OF assms(1), of i] assms(2) k la by simp
  from llist_del_inv [OF assms(1,2) k] obtain m' where m':
    "llist_del l i m = Some (payload m (last as), m')"
    "llist_inv m' l (take (length as - 1) as @ drop (Suc (length as - 1)) as)" "bufs m' = bufs m"
    unfolding la by blast
  have bl: "take (length as - 1) as @ drop (Suc (length as - 1)) as = butlast as"
    using assms(2) by (simp add: butlast_conv_take)
  from llist_inv_list_at [OF m'(2)] obtain L' where L': "list_at m' l = Some L'"
    "unat (len L') = length as - 1"
    unfolding bl by auto
  have c0: "len L \<noteq> 0" using L(2) assms(2) by auto
  then have u: "unat (len L - 1) = unat (len L) - 1" by (simp add: unat_minus_one)
  then have "len L' = len L - 1" using L'(2) L(2) by (simp add: word_unat_eq_iff)
  then show ?thesis
    using L L' m' g pl u unfolding bl by (simp add: get_tail_def get_len_def)
qed

theorem out_of_range_index_selects_last_witness:
  "llist_inv mem3 1 [16, 48, 80] \<and> length [16 :: ptr, 48, 80] \<le> unat (7 :: size_t) \<and>
   llist_get 1 7 mem3 = Some 96 \<and>
   (\<exists>m'. llist_del 1 7 mem3 = Some (96, m') \<and> llist_inv m' 1 [16, 48] \<and> get_len 1 m' = Some 2)"
proof -
  have h: "[16 :: ptr, 48, 80] \<noteq> []" "length [16 :: ptr, 48, 80] \<le> unat (7 :: size_t)" by simp_all
  have p: "payload mem3 80 = 96" "get_len 1 mem3 = Some 3"
    by (simp_all add: op_defs mem3_def)
  from out_of_range_index_selects_last [OF inv_mem3 h] inv_mem3 h(2) p
  show ?thesis by auto
qed

text \<open>
  C3. When the handle is \<open>NULL\<close>, or the list is empty or the index is not below its
  length, \<^verbatim>\<open>llist_ins\<close> is \<^verbatim>\<open>llist_add\<close>: the same status and the same memory, for every
  data pointer, length and result of the allocator. When that call returns \<open>LLIST_OK\<close> on
  a list satisfying the invariant, the new node is the last of the chain and the tail of
  the header, and it owns a copy of the bytes supplied.
\<close>

theorem insert_past_end_is_add:
  assumes "l = NULL \<or> (\<exists>L. list_at m l = Some L \<and> (len L = 0 \<or> len L \<le> i))"
  shows "llist_ins l d n i pn pd m = llist_add l d n pn pd m \<and>
         (\<forall>as bs m'. llist_inv m l as \<and> d = Some bs \<and> fresh_node m pn \<and> fresh_buf m pd \<and>
              llist_ins l d n i pn pd m = Some (LLIST_OK, m') \<longrightarrow>
            llist_inv m' l (as @ [pn]) \<and> get_tail l m' = Some pn \<and>
            payload m' pn = pd \<and> bufs m' pd = Some (take (unat n) bs))"
proof -
  have e: "llist_ins l d n i pn pd m = llist_add l d n pn pd m"
    using assms
  proof
    assume "l = NULL"
    then show ?thesis by (simp add: llist_ins_def llist_add_def)
  next
    assume "\<exists>L. list_at m l = Some L \<and> (len L = 0 \<or> len L \<le> i)"
    then show ?thesis using llist_ins_eq_add by blast
  qed
  have "llist_inv m' l (as @ [pn]) \<and> get_tail l m' = Some pn \<and>
            payload m' pn = pd \<and> bufs m' pd = Some (take (unat n) bs)"
    if h: "llist_inv m l as \<and> d = Some bs \<and> fresh_node m pn \<and> fresh_buf m pd \<and>
              llist_ins l d n i pn pd m = Some (LLIST_OK, m')" for as bs m'
  proof -
    from h e have r: "llist_add l (Some bs) n pn pd m = Some (LLIST_OK, m')" by auto
    from h have i: "llist_inv m l as" and f: "fresh_node m pn" "fresh_buf m pd" by auto
    from llist_add_ok_inv [OF i f r] have a: "llist_inv m' l (as @ [pn])"
      "bufs m' = (bufs m)(pd \<mapsto> take (unat n) bs)" "payload m' pn = pd"
      by auto
    from llist_inv_ends [OF a(1)] have "get_tail l m' = Some pn"
      by (auto simp: get_tail_def)
    then show ?thesis using a by simp
  qed
  then show ?thesis using e by blast
qed

theorem insert_past_end_is_add_witness:
  "(\<exists>L. list_at mem1 1 = Some L \<and> (len L = 0 \<or> len L \<le> 5)) \<and>
   llist_ins 1 (Some [66]) 1 5 48 64 mem1 = llist_add 1 (Some [66]) 1 48 64 mem1 \<and>
   llist_ins 1 (Some [66]) 1 5 48 64 mem1 = Some (LLIST_OK, mem2) \<and>
   llist_inv mem2 1 ([16] @ [48]) \<and> get_tail 1 mem2 = Some 48 \<and>
   payload mem2 48 = 64 \<and> bufs mem2 64 = Some (take (unat (1 :: size_t)) [66])"
proof -
  have h: "1 = NULL \<or> (\<exists>L. list_at mem1 1 = Some L \<and> (len L = 0 \<or> len L \<le> 5))"
    by (simp add: op_defs mem1_def)
  from insert_past_end_is_add [OF h, of "Some [66]" 1 48 64]
  have e: "llist_ins 1 (Some [66]) 1 5 48 64 mem1 = llist_add 1 (Some [66]) 1 48 64 mem1"
    and s: "\<And>as bs m'. llist_inv mem1 1 as \<and> Some [66] = Some bs \<and> fresh_node mem1 48 \<and>
              fresh_buf mem1 64 \<and> llist_ins 1 (Some [66]) 1 5 48 64 mem1 = Some (LLIST_OK, m') \<Longrightarrow>
            llist_inv m' 1 (as @ [48]) \<and> get_tail 1 m' = Some 48 \<and>
            payload m' 48 = 64 \<and> bufs m' 64 = Some (take (unat (1 :: size_t)) bs)"
    by blast+
  have r: "llist_ins 1 (Some [66]) 1 5 48 64 mem1 = Some (LLIST_OK, mem2)"
    using e add_mem1 by simp
  from s [of "[16]" "[66]" mem2] inv_mem1 fresh_mems r e h show ?thesis by simp
qed

text \<open>
  C4. Every public function preserves the invariant. On a list with the invariant
  \<open>llist_inv\<close> and an environment that satisfies \<open>pre\<close>, each of the six calls returns
  (no undefined behaviour) and leaves a memory in which the invariant holds again, for
  the chain that \<open>model\<close> computes: the chain from \<^verbatim>\<open>head\<close> along \<^verbatim>\<open>next\<close> ends in \<open>NULL\<close> after
  exactly \<^verbatim>\<open>len\<close> nodes (so the length did not wrap), the last of them is \<^verbatim>\<open>tail\<close>, no node
  occurs twice, and every \<^verbatim>\<open>prev\<close> points to the node before. In that memory \<^verbatim>\<open>len\<close> is 0
  iff \<^verbatim>\<open>head\<close> is \<open>NULL\<close> iff \<^verbatim>\<open>tail\<close> is \<open>NULL\<close>. The invariant also says that every node of
  the chain owns a live payload buffer of its own, which is what lets \<^verbatim>\<open>llist_clear\<close> free
  each payload once.
\<close>

theorem public_operations_preserve_invariant:
  assumes "llist_inv m l as" and "pre m c"
  shows "\<exists>r m'. exec l c m = Some (r, m') \<and> llist_inv m' l (model c as) \<and> empty_consistent m' l"
  using exec_inv [OF assms] llist_inv_empty_consistent by blast

theorem public_operations_preserve_invariant_witness:
  "llist_inv mem3 1 [16, 48, 80] \<and> pre mem3 (Ins (Some [88]) 1 1 112 128) \<and>
   (\<exists>r m'. exec 1 (Ins (Some [88]) 1 1 112 128) mem3 = Some (r, m') \<and>
       llist_inv m' 1 [16, 112, 48, 80] \<and> empty_consistent m' 1)"
proof -
  have p: "pre mem3 (Ins (Some [88]) 1 1 112 128)"
    by (simp add: fresh_node_def fresh_buf_def readable_def mem3_def)
  show ?thesis
    using public_operations_preserve_invariant [OF inv_mem3 p] inv_mem3 p by simp
qed

text \<open>
  C5. On a list that is not empty, after a call of \<^verbatim>\<open>llist_ins\<close> with index 0 that
  returns \<open>LLIST_OK\<close>, \<^verbatim>\<open>llist_get\<close> at 0 returns the payload of the new element, which
  holds the bytes supplied, and \<^verbatim>\<open>llist_get\<close> at 1 returns what \<^verbatim>\<open>llist_get\<close> at 0
  returned before the call, the payload of the former head, with its bytes unchanged.
\<close>

theorem insert_at_front:
  assumes "llist_inv m l as" and "as \<noteq> []" and "fresh_node m pn" and "fresh_buf m pd"
    and "llist_ins l (Some bs) n 0 pn pd m = Some (LLIST_OK, m')"
  shows "llist_get l 0 m' = Some pd \<and> bufs m' pd = Some (take (unat n) bs) \<and>
         llist_get l 1 m' = llist_get l 0 m \<and>
         llist_get l 0 m = Some (payload m (hd as)) \<and> payload m (hd as) \<noteq> NULL \<and>
         bufs m' (payload m (hd as)) = bufs m (payload m (hd as))"
proof -
  from llist_ins_status [OF assms(5)] have s: "n \<noteq> 0" "pn \<noteq> NULL" "pd \<noteq> NULL" "unat n \<le> length bs"
    by (auto simp: status_distinct)
  have f: "nodes m pn = None" "bufs m pd = None"
    using assms(3,4) s by (auto simp: fresh_node_def fresh_buf_def)
  from llist_ins_head_inv [OF assms(1,2) s(1,4,2,3) f] assms(5)
  have a: "llist_inv m' l (pn # as)" "bufs m' = (bufs m)(pd \<mapsto> take (unat n) bs)"
    "payload m' pn = pd" "\<forall>a\<in>set as. payload m' a = payload m a"
    by auto
  have h: "hd as \<in> set as" "as ! 0 = hd as" using assms(2) by (simp_all add: hd_conv_nth)
  from assms(1) h(1) have live: "payload m (hd as) \<noteq> NULL" "bufs m (payload m (hd as)) \<noteq> None"
    unfolding llist_inv_seg by auto
  have g0: "llist_get l 0 m = Some (payload m (hd as))"
    using llist_get_inv [OF assms(1), of 0] assms(2) h by simp
  have g0': "llist_get l 0 m' = Some pd"
    using llist_get_inv [OF a(1), of 0] a(3) by simp
  have "min (unat (1 :: size_t)) (length (pn # as) - 1) = 1"
    using assms(2) by (cases as) auto
  then have g1': "llist_get l 1 m' = Some (payload m (hd as))"
    using llist_get_inv [OF a(1), of 1] a(4) h by simp
  have "payload m (hd as) \<noteq> pd" using live f(2) by auto
  then show ?thesis using g0 g0' g1' a(2) live by simp
qed

theorem insert_at_front_witness:
  "llist_inv mem2 1 [16, 48] \<and> fresh_node mem2 112 \<and> fresh_buf mem2 128 \<and>
   (\<exists>m'. llist_ins 1 (Some [88]) 1 0 112 128 mem2 = Some (LLIST_OK, m') \<and>
      llist_get 1 0 m' = Some 128 \<and> bufs m' 128 = Some [88] \<and>
      llist_get 1 1 m' = Some 32 \<and> llist_get 1 0 mem2 = Some 32 \<and> bufs m' 32 = Some [65])"
proof -
  have f: "fresh_node mem2 112" "fresh_buf mem2 128" "[16 :: ptr, 48] \<noteq> []"
    by (simp_all add: fresh_node_def fresh_buf_def mem2_def)
  have "\<exists>m'. llist_ins 1 (Some [88]) 1 0 112 128 mem2 = Some (LLIST_OK, m')"
    by (simp add: op_defs mem2_def)
  then obtain m' where r: "llist_ins 1 (Some [88]) 1 0 112 128 mem2 = Some (LLIST_OK, m')" ..
  have p: "payload mem2 16 = 32" "bufs mem2 32 = Some [65]"
    by (simp_all add: op_defs mem2_def)
  from insert_at_front [OF inv_mem2 f(3,1,2) r] r f inv_mem2 p show ?thesis
    by simp
qed

text \<open>
  C6. The route of \<^verbatim>\<open>lnode_get\<close>, on every live header with a length other than 0 and
  whatever the nodes look like: with the index clamped to the last one, it walks back
  from the tail, \<^verbatim>\<open>len - i - 1\<close> steps along \<^verbatim>\<open>prev\<close>, when the clamped index is at least
  half the length, and forward from the head, \<open>i\<close> steps along \<^verbatim>\<open>next\<close>, otherwise. When
  the list satisfies the invariant, \<^verbatim>\<open>lnode_get\<close> returns what the forward walk
  \<open>naive_get\<close> of the specification returns, the node at the clamped position of the
  chain, and for every index below the length the route from the tail and the route
  from the head both end at the node at that position.
\<close>

theorem lookup_equals_forward_walk:
  assumes "list_at m l = Some L" and "len L \<noteq> 0"
  shows "lnode_get l i m =
           (let c = (if i \<ge> len L then len L - 1 else i) in
            if c \<ge> len L div 2 then walk_prev m (tail L) 0 (len L - c - 1)
            else walk_next m (head L) 0 c) \<and>
         (\<forall>as. llist_inv m l as \<longrightarrow>
            lnode_get l i m = naive_get l i m \<and>
            naive_get l i m = Some (as ! min (unat i) (length as - 1)) \<and>
            (\<forall>j. j < len L \<longrightarrow>
               walk_prev m (tail L) 0 (len L - j - 1) = Some (as ! unat j) \<and>
               walk_next m (head L) 0 j = Some (as ! unat j) \<and>
               walk_fwd m (head L) (unat j) = Some (as ! unat j)))"
proof (intro conjI allI impI)
  show "lnode_get l i m =
           (let c = (if i \<ge> len L then len L - 1 else i) in
            if c \<ge> len L div 2 then walk_prev m (tail L) 0 (len L - c - 1)
            else walk_next m (head L) 0 c)"
    using assms list_at_nonnull [OF assms(1)]
    by (simp add: lnode_get_def llist_empty_def get_len_def get_tail_def get_head_def Let_def)
next
  fix as assume inv: "llist_inv m l as"
  from llist_inv_list_at [OF inv] assms have ne: "as \<noteq> []"
    by (auto simp: unat_eq_zero)
  show n: "naive_get l i m = Some (as ! min (unat i) (length as - 1))"
    using inv ne by (rule naive_get_inv)
  show "lnode_get l i m = naive_get l i m"
    using lnode_get_inv [OF inv, of i] ne n by simp
next
  fix as j assume inv: "llist_inv m l as" and j: "j < len L"
  from llist_inv_list_at [OF inv] assms have ne: "as \<noteq> []"
    by (auto simp: unat_eq_zero)
  show "walk_prev m (tail L) 0 (len L - j - 1) = Some (as ! unat j)"
    and "walk_next m (head L) 0 j = Some (as ! unat j)"
    using llist_inv_walks [OF inv assms(1) j] by auto
  have "j \<ge> len L \<longleftrightarrow> False" using j by simp
  moreover have "unat j < length as"
    using j llist_inv_list_at [OF inv] assms(1) by (auto simp: word_less_nat_alt)
  moreover from this have "min (unat j) (length as - 1) = unat j" by simp
  ultimately show "walk_fwd m (head L) (unat j) = Some (as ! unat j)"
    using naive_get_inv [OF inv ne, of j] assms(1)
    by (simp add: naive_get_def get_len_def get_head_def)
qed

theorem lookup_equals_forward_walk_witness:
  "list_at mem3 1 = Some \<lparr>head = 16, tail = 80, len = 3\<rparr> \<and> (3 :: size_t) \<noteq> 0 \<and>
   llist_inv mem3 1 [16, 48, 80] \<and>
   lnode_get 1 2 mem3 = naive_get 1 2 mem3 \<and> naive_get 1 2 mem3 = Some 80 \<and>
   walk_prev mem3 80 0 1 = Some 48 \<and> walk_next mem3 16 0 1 = Some 48 \<and>
   walk_fwd mem3 16 1 = Some 48 \<and>
   list_at mem3_cut 1 = Some \<lparr>head = 16, tail = 80, len = 3\<rparr> \<and>
   lnode_get 1 1 mem3_cut = walk_prev mem3_cut 80 0 1 \<and>
   walk_prev mem3_cut 80 0 1 = Some 48 \<and> walk_next mem3_cut 16 0 1 = Some NULL \<and>
   lnode_get 1 0 mem3_cut = walk_next mem3_cut 16 0 0 \<and>
   walk_next mem3_cut 16 0 0 = Some 16"
proof -
  have h: "list_at mem3 1 = Some \<lparr>head = 16, tail = 80, len = 3\<rparr>"
    "len \<lparr>head = 16, tail = 80, len = 3 :: size_t\<rparr> \<noteq> 0"
    by (simp_all add: list_at_def mem3_def)
  note t = lookup_equals_forward_walk [OF h, of 2, THEN conjunct2, rule_format, OF inv_mem3]
  note t1 = t [THEN conjunct1]
  note t2 = t [THEN conjunct2, THEN conjunct1]
  note t3 = t [THEN conjunct2, THEN conjunct2]
  from t1 have a1: "lnode_get 1 2 mem3 = naive_get 1 2 mem3" .
  from t2 have a2: "naive_get 1 2 mem3 = Some 80" by simp
  have lt: "(1 :: size_t) < len \<lparr>head = 16 :: ptr, tail = 80 :: ptr, len = 3\<rparr>"
    by (simp add: word_less_nat_alt)
  from t3 [rule_format, OF lt]
  have b: "walk_prev mem3 80 0 1 = Some 48" "walk_next mem3 16 0 1 = Some 48"
    "walk_fwd mem3 16 1 = Some 48"
    by simp_all
  have hc: "list_at mem3_cut 1 = Some \<lparr>head = 16, tail = 80, len = 3\<rparr>"
    by (simp add: list_at_def mem3_cut_def)
  have w: "\<not> (1 :: size_t) \<ge> 3" "(1 :: size_t) \<ge> 3 div 2" "\<not> (0 :: size_t) \<ge> 3"
    "\<not> (0 :: size_t) \<ge> 3 div 2" "(3 :: size_t) - 1 - 1 = 1"
    by (simp_all add: word_le_nat_alt unat_div)
  from lookup_equals_forward_walk [OF hc h(2), of 1, THEN conjunct1]
  have c1: "lnode_get 1 1 mem3_cut = walk_prev mem3_cut 80 0 1"
    using w by (simp add: Let_def)
  from lookup_equals_forward_walk [OF hc h(2), of 0, THEN conjunct1]
  have c2: "lnode_get 1 0 mem3_cut = walk_next mem3_cut 16 0 0"
    using w by (simp add: Let_def)
  have e: "walk_prev mem3_cut 80 0 1 = Some 48" "walk_next mem3_cut 16 0 1 = Some NULL"
    "walk_next mem3_cut 16 0 0 = Some 16"
    by (simp_all add: op_defs mem3_cut_def)
  show ?thesis using h(1) inv_mem3 a1 a2 b hc c1 c2 e by simp
qed

text \<open>
  C7. \<^verbatim>\<open>llist_add\<close> and \<^verbatim>\<open>llist_ins\<close> return \<open>LLIST_NULL_ERR\<close> exactly when the list
  handle or the data pointer is \<open>NULL\<close> or the length is 0, and then the memory is the one
  they were called in. When the allocation of the node or of the payload fails, on a live
  header and with the allocator returning fresh storage, both return \<open>LLIST_ALLOC_ERR\<close>
  and the memory is again the one they were called in: the node allocated before a
  failed payload allocation is released, nothing is linked and \<^verbatim>\<open>len\<close> is unchanged.
\<close>

theorem add_ins_error_results:
  "(\<forall>r m'. llist_add l d n pn pd m = Some (r, m') \<longrightarrow>
      (r = LLIST_NULL_ERR \<longleftrightarrow> l = NULL \<or> d = None \<or> n = 0)) \<and>
   (\<forall>r m'. llist_ins l d n i pn pd m = Some (r, m') \<longrightarrow>
      (r = LLIST_NULL_ERR \<longleftrightarrow> l = NULL \<or> d = None \<or> n = 0)) \<and>
   (l = NULL \<or> d = None \<or> n = 0 \<longrightarrow>
      llist_add l d n pn pd m = Some (LLIST_NULL_ERR, m) \<and>
      llist_ins l d n i pn pd m = Some (LLIST_NULL_ERR, m)) \<and>
   (list_at m l \<noteq> None \<and> d \<noteq> None \<and> n \<noteq> 0 \<and> fresh_node m pn \<and> (pn = NULL \<or> pd = NULL) \<longrightarrow>
      llist_add l d n pn pd m = Some (LLIST_ALLOC_ERR, m) \<and>
      llist_ins l d n i pn pd m = Some (LLIST_ALLOC_ERR, m))"
proof (intro conjI allI impI)
  fix r m' assume "llist_add l d n pn pd m = Some (r, m')"
  then show "r = LLIST_NULL_ERR \<longleftrightarrow> l = NULL \<or> d = None \<or> n = 0"
    using llist_add_status by blast
next
  fix r m' assume "llist_ins l d n i pn pd m = Some (r, m')"
  then show "r = LLIST_NULL_ERR \<longleftrightarrow> l = NULL \<or> d = None \<or> n = 0"
    using llist_ins_status by blast
next
  assume "l = NULL \<or> d = None \<or> n = 0"
  then show "llist_add l d n pn pd m = Some (LLIST_NULL_ERR, m)"
    and "llist_ins l d n i pn pd m = Some (LLIST_NULL_ERR, m)"
    by (auto simp: llist_add_def llist_ins_def)
next
  assume a: "list_at m l \<noteq> None \<and> d \<noteq> None \<and> n \<noteq> 0 \<and> fresh_node m pn \<and> (pn = NULL \<or> pd = NULL)"
  then obtain L bs where L: "list_at m l = Some L" and d: "d = Some bs" by auto
  from a L show "llist_add l d n pn pd m = Some (LLIST_ALLOC_ERR, m)"
    unfolding d by (intro llist_add_alloc_fail) (auto dest: list_at_nonnull)
  from a L show "llist_ins l d n i pn pd m = Some (LLIST_ALLOC_ERR, m)"
    unfolding d by (intro llist_ins_alloc_fail) auto
qed

theorem add_ins_error_results_witness:
  "llist_add NULL (Some [65]) 1 16 32 mem0 = Some (LLIST_NULL_ERR, mem0) \<and>
   llist_ins NULL (Some [65]) 1 0 16 32 mem0 = Some (LLIST_NULL_ERR, mem0) \<and>
   llist_add 1 (Some [65]) 1 16 NULL mem0 = Some (LLIST_ALLOC_ERR, mem0) \<and>
   llist_ins 1 (Some [65]) 1 0 16 NULL mem0 = Some (LLIST_ALLOC_ERR, mem0)"
  using add_ins_error_results [of NULL "Some [65]" 1 16 32 mem0 0]
    add_ins_error_results [of 1 "Some [65]" 1 16 NULL mem0 0]
  by (simp add: mem0_def list_at_def fresh_node_def)

text \<open>
  C8. \<^verbatim>\<open>llist_clear\<close> on the \<open>NULL\<close> handle changes nothing, and \<^verbatim>\<open>llist_get\<close> on that
  handle returns \<open>NULL\<close>. On a list with the invariant, \<^verbatim>\<open>llist_clear\<close> returns a memory in
  which the length is 0 and \<^verbatim>\<open>llist_get\<close> at 0 returns \<open>NULL\<close>; a second \<^verbatim>\<open>llist_clear\<close>
  leaves that memory as it is; and on an empty list the first one changes nothing.
\<close>

theorem clear_empties_and_is_idempotent:
  "llist_clear NULL m = Some m \<and> llist_get NULL i m = Some NULL \<and>
   (llist_inv m l as \<longrightarrow>
      (\<exists>m'. llist_clear l m = Some m' \<and> get_len l m' = Some 0 \<and>
            llist_get l 0 m' = Some NULL \<and> llist_clear l m' = Some m' \<and>
            (as = [] \<longrightarrow> m' = m)))"
proof (intro conjI impI)
  show "llist_clear NULL m = Some m"
    by (simp add: llist_clear_def llist_empty_def)
  show "llist_get NULL i m = Some NULL"
    by (simp add: llist_get_def lnode_get_def llist_empty_def)
  assume inv: "llist_inv m l as"
  from llist_clear_inv [OF inv] obtain m' where m': "llist_clear l m = Some m'"
    "llist_inv m' l []" "as = [] \<longrightarrow> m' = m"
    by blast
  from llist_inv_list_at [OF m'(2)] have "get_len l m' = Some 0"
    by (auto simp: get_len_def unat_eq_zero)
  moreover have "llist_get l 0 m' = Some NULL"
    using llist_get_inv [OF m'(2), of 0] by simp
  moreover have "llist_clear l m' = Some m'"
    using llist_clear_inv [OF m'(2)] by auto
  ultimately show "\<exists>m'. llist_clear l m = Some m' \<and> get_len l m' = Some 0 \<and>
            llist_get l 0 m' = Some NULL \<and> llist_clear l m' = Some m' \<and>
            (as = [] \<longrightarrow> m' = m)"
    using m' by blast
qed

theorem clear_empties_and_is_idempotent_witness:
  "llist_inv mem3 1 [16, 48, 80] \<and>
   (\<exists>m'. llist_clear 1 mem3 = Some m' \<and> get_len 1 m' = Some 0 \<and>
         llist_get 1 0 m' = Some NULL \<and> llist_clear 1 m' = Some m')"
  using clear_empties_and_is_idempotent [of mem3 0 1 "[16, 48, 80]"] inv_mem3 by simp

text \<open>
  C9. Right after \<^verbatim>\<open>llist_init\<close> the head and the tail are equal, both \<open>NULL\<close>, and the
  length is 0, not 1: the equivalence of "length 1" and "head equals tail" fails in that
  state. What holds in every state reached by a run of public calls that starts with
  \<^verbatim>\<open>llist_init\<close> on a live header: the length is 1 iff the head equals the tail and is not
  \<open>NULL\<close>, and then both links of that single node are \<open>NULL\<close>.
\<close>

theorem count_one_iff_single_node:
  assumes "list_at m0 l \<noteq> None" and "run l (Init # cs) m0 = Some m"
  shows "\<exists>L. list_at m l = Some L \<and>
           (len L = 1 \<longleftrightarrow> head L = tail L \<and> head L \<noteq> NULL) \<and>
           (len L = 1 \<longrightarrow> (\<exists>nd. node_at m (head L) = Some nd \<and> prev nd = NULL \<and> nxt nd = NULL))"
proof -
  from run_init_inv [OF assms] obtain as where inv: "llist_inv m l as" ..
  then obtain L where L: "list_at m l = Some L" by (auto dest: llist_inv_list_at)
  from llist_inv_single [OF inv L] L show ?thesis by blast
qed

theorem count_one_iff_single_node_witness:
  "list_at mem0 1 \<noteq> None \<and> run 1 [Init, Add (Some [65]) 1 16 32] mem0 = Some mem1 \<and>
   (\<exists>L. list_at mem1 1 = Some L \<and>
           (len L = 1 \<longleftrightarrow> head L = tail L \<and> head L \<noteq> NULL) \<and>
           (len L = 1 \<longrightarrow> (\<exists>nd. node_at mem1 (head L) = Some nd \<and> prev nd = NULL \<and> nxt nd = NULL)))"
proof -
  have a: "list_at mem0 1 \<noteq> None" by (simp add: list_at_def mem0_def)
  have b: "run 1 [Init, Add (Some [65]) 1 16 32] mem0 = Some mem1"
    by (simp add: init_mem0 add_mem0 fresh_mems readable_def)
  from count_one_iff_single_node [OF a b] a b show ?thesis by simp
qed

theorem count_one_iff_head_is_tail_counterexample:
  "run 1 [Init] mem0 = Some mem0 \<and>
   \<not> (get_len 1 mem0 = Some 1 \<longleftrightarrow> get_head 1 mem0 = get_tail 1 mem0)"
  by (simp add: init_mem0) (simp add: op_defs mem0_def)

text \<open>
  C10. In the branch of \<^verbatim>\<open>llist_ins\<close> that inserts in the middle (a list with the
  invariant, an index \<open>i\<close> with \<open>1 \<le> i < len\<close>, a successful allocation) the lookup
  \<^verbatim>\<open>lnode_get\<close> for \<open>i - 1\<close>, made in the memory after \<^verbatim>\<open>lnode_new\<close>, returns the live node
  at position \<open>i - 1\<close>, the \<^verbatim>\<open>next\<close> field of that node points to the live node at position
  \<open>i\<close>, and the whole call returns \<open>LLIST_OK\<close>: no dereference in the branch meets \<open>NULL\<close>
  or a dead object.
\<close>

theorem mid_insert_follows_no_absent_link:
  assumes "llist_inv m l as" and "get_len l m = Some c" and "1 \<le> i" and "i < c"
    and "n \<noteq> 0" and "unat n \<le> length bs"
    and "pn \<noteq> NULL" and "pd \<noteq> NULL" and "fresh_node m pn" and "fresh_buf m pd"
  shows "\<exists>m1 bef nb na m'.
           lnode_new bs n pn pd m = Some (pn, m1) \<and>
           lnode_get l (i - 1) m1 = Some bef \<and> bef = as ! (unat i - 1) \<and>
           node_at m1 bef = Some nb \<and> nxt nb = as ! unat i \<and>
           node_at m1 (nxt nb) = Some na \<and>
           llist_ins l (Some bs) n i pn pd m = Some (LLIST_OK, m')"
proof -
  from llist_inv_list_at [OF assms(1)] assms(2) have un: "unat c = length as"
    by (auto simp: get_len_def)
  have i: "0 < unat i" "unat i < length as"
    using assms(3,4) un by (auto simp: word_le_nat_alt word_less_nat_alt)
  have f: "nodes m pn = None" "bufs m pd = None"
    using assms(7-10) by (auto simp: fresh_node_def fresh_buf_def)
  define m1 where "m1 = m\<lparr>nodes := (nodes m)(pn \<mapsto> \<lparr>data = pd, prev = NULL, nxt = NULL\<rparr>),
                 bufs := (bufs m)(pd \<mapsto> take (unat n) bs)\<rparr>"
  have new: "lnode_new bs n pn pd m = Some (pn, m1)"
    unfolding m1_def using assms(7,8,6) by (rule lnode_new_ok)
  have inv1: "llist_inv m1 l as"
    unfolding m1_def using assms(1) f by (rule lnode_new_inv)
  have ui: "unat (i - 1) = unat i - 1" using i by unat_arith
  have ne: "as \<noteq> []" using i by auto
  have mn: "min (unat (i - 1)) (length as - 1) = unat i - 1" using i ui by simp
  have g: "lnode_get l (i - 1) m1 = Some (as ! (unat i - 1))"
    using lnode_get_inv [OF inv1, of "i - 1"] ne unfolding mn by simp
  from inv1 have links: "\<forall>k<length as. \<exists>nd. node_at m1 (as ! k) = Some nd \<and>
           prev nd = (if k = 0 then NULL else as ! (k - 1)) \<and>
           nxt nd = (if Suc k < length as then as ! Suc k else NULL)"
    unfolding llist_inv_iff by blast
  have k1: "unat i - 1 < length as" "Suc (unat i - 1) = unat i" using i by auto
  from links [rule_format, OF k1(1)] obtain nb where
    nb: "node_at m1 (as ! (unat i - 1)) = Some nb" "nxt nb = as ! unat i"
    unfolding k1(2) using i(2) by auto
  from links [rule_format, OF i(2)] obtain na where
    na: "node_at m1 (as ! unat i) = Some na"
    by auto
  from llist_ins_mid_inv [OF assms(1) i assms(5,6,7,8) f] obtain m' where
    "llist_ins l (Some bs) n i pn pd m = Some (LLIST_OK, m')" by blast
  then show ?thesis using new g nb na by auto
qed

theorem mid_insert_follows_no_absent_link_witness:
  "llist_inv mem3 1 [16, 48, 80] \<and> get_len 1 mem3 = Some 3 \<and> (1 :: size_t) \<le> 2 \<and> (2 :: size_t) < 3 \<and>
   fresh_node mem3 112 \<and> fresh_buf mem3 128 \<and>
   (\<exists>m1 nb na m'.
      lnode_new [88] 1 112 128 mem3 = Some (112, m1) \<and>
      lnode_get 1 1 m1 = Some 48 \<and> node_at m1 48 = Some nb \<and> nxt nb = 80 \<and>
      node_at m1 80 = Some na \<and>
      llist_ins 1 (Some [88]) 1 2 112 128 mem3 = Some (LLIST_OK, m'))"
proof -
  have h: "get_len 1 mem3 = Some 3" "(1 :: size_t) \<le> 2" "(2 :: size_t) < 3" "(1 :: size_t) \<noteq> 0"
    "unat (1 :: size_t) \<le> length [88 :: byte]" "(112 :: ptr) \<noteq> NULL" "(128 :: ptr) \<noteq> NULL"
    "fresh_node mem3 112" "fresh_buf mem3 128"
    by (simp_all add: op_defs mem3_def)
  from mid_insert_follows_no_absent_link [OF inv_mem3 h] inv_mem3 h show ?thesis
    by auto
qed

end
